theory Spec2Isabelle
  imports Main "HOL-Library.Sublist" "HOL-Library.List_Lexorder" "HOL-Library.Char_ord"
begin

chapter \<open>The programs\<close>

text \<open>
  The two utilities of the repository, \<open>duplicates_remove_v6.py\<close> and
  \<open>clean_empty_dir.py\<close> with its variant \<open>clean_empty_dir_deepseek.py\<close>, as functions
  of HOL. What they call of Python's library (\<open>str\<close>, \<open>re\<close>, \<open>pathlib\<close>, \<open>os.walk\<close>) is
  modelled as CPython 3.8 to 3.12 behaves on POSIX. Printed lines are left out, but for the
  warnings and the outcome that the properties speak about.
\<close>

section \<open>Strings as Python sees them\<close>

text \<open>
  A Python \<open>str\<close> is modelled as a \<open>string\<close> whose characters are the code points
  U+0000 .. U+00FF. On this range \<open>str.lower\<close> maps one character to one character, so
  an index found in the lower-cased stem is an index of the stem itself.
\<close>

definition isspace :: "char \<Rightarrow> bool" where
  \<comment> \<open>\<open>str.isspace\<close> on one code point; the same class is \<open>\s\<close> of module \<open>re\<close>\<close>
  "isspace c =
     (let n = (of_char c :: nat)
      in (9 \<le> n \<and> n \<le> 13) \<or> (28 \<le> n \<and> n \<le> 32) \<or> n = 133 \<or> n = 160)"

definition isdigit :: "char \<Rightarrow> bool" where
  \<comment> \<open>\<open>\d\<close> of module \<open>re\<close> on the code points below 256\<close>
  "isdigit c = (let n = (of_char c :: nat) in 48 \<le> n \<and> n \<le> 57)"

definition lower_char :: "char \<Rightarrow> char" where
  \<comment> \<open>\<open>str.lower\<close> on one code point: \<open>A\<close> to \<open>Z\<close> and the capital letters of Latin-1\<close>
  "lower_char c =
     (let n = (of_char c :: nat)
      in if (65 \<le> n \<and> n \<le> 90) \<or> (192 \<le> n \<and> n \<le> 222 \<and> n \<noteq> 215)
         then char_of (n + 32) else c)"

definition lower :: "string \<Rightarrow> string" where
  "lower s = map lower_char s"

definition strip :: "string \<Rightarrow> string" where
  \<comment> \<open>\<open>s.strip()\<close>: leading and trailing whitespace removed\<close>
  "strip s = rev (dropWhile isspace (rev (dropWhile isspace s)))"

fun rfind :: "string \<Rightarrow> string \<Rightarrow> int" where
  \<comment> \<open>\<open>s.rfind(sub)\<close>: the highest index at which \<open>sub\<close> starts in \<open>s\<close>, or \<open>-1\<close>\<close>
  "rfind [] sub = (if sub = [] then 0 else - 1)"
| "rfind (c # s) sub =
     (let r = rfind s sub
      in if 0 \<le> r then r + 1
         else if take (length sub) (c # s) = sub then 0 else - 1)"

section \<open>File names: \<open>pathlib\<close> on one path string\<close>

text \<open>
  \<open>clean_filename\<close> builds \<open>Path(filename)\<close> and reads its \<open>stem\<close> and \<open>suffix\<close>: the name
  is split at its last dot, unless that dot is the first or the last character.
\<close>

fun split_slash :: "string \<Rightarrow> string list" where
  \<comment> \<open>\<open>s.split('/')\<close>\<close>
  "split_slash [] = [[]]"
| "split_slash (c # s) =
     (if c = CHR ''/'' then [] # split_slash s
      else (case split_slash s of [] \<Rightarrow> [[c]] | w # ws \<Rightarrow> (c # w) # ws))"

definition path_name :: "string \<Rightarrow> string" where
  \<comment> \<open>\<open>PurePosixPath(s).name\<close>: the last component, empty and \<open>.\<close> components dropped\<close>
  "path_name s =
     (case rev (filter (\<lambda>w. w \<noteq> [] \<and> w \<noteq> ''.'') (split_slash s)) of
        [] \<Rightarrow> []
      | n # _ \<Rightarrow> n)"

definition has_suffix :: "string \<Rightarrow> bool" where
  \<comment> \<open>the test \<open>0 < i < len(name) - 1\<close> of \<open>PurePath.suffix\<close> and \<open>PurePath.stem\<close>\<close>
  "has_suffix name =
     (let i = rfind name ''.'' in 0 < i \<and> i < int (length name) - 1)"

definition path_suffix :: "string \<Rightarrow> string" where
  "path_suffix name =
     (if has_suffix name then drop (nat (rfind name ''.'')) name else [])"

definition path_stem :: "string \<Rightarrow> string" where
  "path_stem name =
     (if has_suffix name then take (nat (rfind name ''.'')) name else name)"

section \<open>Compiled patterns\<close>

text \<open>
  \<open>clean_filename\<close> receives a compiled regular expression and only calls its \<open>search\<close>
  method, which returns no match or the span \<open>(start, end)\<close> of the first match, with
  \<open>0 \<le> start \<le> end \<le> len(s)\<close>. A compiled pattern is modelled by that function.
\<close>

typedef pattern =
  "{f :: string \<Rightarrow> (nat \<times> nat) option. \<forall>s a b. f s = Some (a, b) \<longrightarrow> a \<le> b \<and> b \<le> length s}"
  morphisms search Pattern
  by (rule exI [of _ "\<lambda>_. None"]) simp

definition match_here :: "string \<Rightarrow> nat option" where
  \<comment> \<open>the length of the match of \<open>\s*\(\d+\)\<close> that starts at the head of the string\<close>
  "match_here s =
     (let ws = takeWhile isspace s; r = dropWhile isspace s
      in case r of
           [] \<Rightarrow> None
         | c # r' \<Rightarrow>
             if c \<noteq> CHR ''('' then None
             else (let ds = takeWhile isdigit r'; r'' = dropWhile isdigit r'
                   in if ds \<noteq> [] \<and> take 1 r'' = '')''
                      then Some (length ws + 1 + length ds + 1) else None))"

fun re_search :: "(string \<Rightarrow> nat option) \<Rightarrow> string \<Rightarrow> (nat \<times> nat) option" where
  \<comment> \<open>the leftmost position at which the matcher succeeds, as a span\<close>
  "re_search m [] = (case m [] of None \<Rightarrow> None | Some n \<Rightarrow> Some (0, n))"
| "re_search m (c # s) =
     (case m (c # s) of
        Some n \<Rightarrow> Some (0, n)
      | None \<Rightarrow> (case re_search m s of None \<Rightarrow> None | Some (a, b) \<Rightarrow> Some (Suc a, Suc b)))"

definition default_pattern :: pattern where
  \<comment> \<open>\<open>re.compile(r'\s*\(\d+\)')\<close>, the default of \<open>find_and_remove_duplicates\<close>\<close>
  "default_pattern = Pattern (re_search match_here)"

section \<open>\<open>clean_filename\<close>\<close>

definition remove_pattern :: "pattern \<Rightarrow> string \<Rightarrow> string" where
  \<comment> \<open>step 1 of the loop body: the first match of the pattern is cut out\<close>
  "remove_pattern p cleaned_stem =
     (case search p cleaned_stem of
        None \<Rightarrow> cleaned_stem
      | Some (start, stop) \<Rightarrow> strip (take start cleaned_stem @ drop stop cleaned_stem))"

definition remove_copy :: "string \<Rightarrow> string" where
  \<comment> \<open>step 2 of the loop body, run when \<open>detect_copy\<close> is set\<close>
  "remove_copy cleaned_stem =
     (let lower_stem = lower cleaned_stem;
          dot_copy_index = rfind lower_stem ''.copy'';
          space_copy_index = rfind lower_stem '' - copy''
      in if space_copy_index > dot_copy_index
         then strip (take (nat space_copy_index) cleaned_stem)
         else if dot_copy_index \<noteq> - 1
         then strip (take (nat dot_copy_index) cleaned_stem)
         else cleaned_stem)"

definition clean_pass :: "pattern \<Rightarrow> bool \<Rightarrow> string \<Rightarrow> string" where
  \<comment> \<open>one run of the body of \<open>while True\<close>\<close>
  "clean_pass p detect_copy cleaned_stem =
     (let s1 = remove_pattern p cleaned_stem
      in if detect_copy then remove_copy s1 else s1)"

subsection \<open>The loop body shortens the stem or leaves it alone\<close>

text \<open>
  The \<open>while True\<close> loop of \<open>clean_filename\<close> ends because a pass that changes the stem
  makes it shorter. The facts below are what the definition of the loop needs.
\<close>

lemma length_dropWhile_eq: "length (dropWhile P xs) = length xs \<Longrightarrow> dropWhile P xs = xs"
proof (induction xs)
  case Nil
  show ?case by simp
next
  case (Cons x xs)
  show ?case
  proof (cases "P x")
    case True
    have "length (dropWhile P xs) \<le> length xs" by (rule length_dropWhile_le)
    with True Cons.prems show ?thesis by simp
  next
    case False
    then show ?thesis by simp
  qed
qed

lemma length_strip_le: "length (strip s) \<le> length s"
  unfolding strip_def
  by (metis length_dropWhile_le length_rev order_trans)

lemma strip_same_length: "length (strip s) = length s \<Longrightarrow> strip s = s"
proof -
  assume a: "length (strip s) = length s"
  have 1: "length (dropWhile isspace (rev (dropWhile isspace s))) \<le> length (dropWhile isspace s)"
    by (metis length_dropWhile_le length_rev)
  have 2: "length (dropWhile isspace s) \<le> length s" by (rule length_dropWhile_le)
  from a have 3: "length (dropWhile isspace (rev (dropWhile isspace s))) = length s"
    by (simp add: strip_def)
  with 1 2 have 4: "length (dropWhile isspace s) = length s" by linarith
  then have 5: "dropWhile isspace s = s" by (rule length_dropWhile_eq)
  from 3 5 have "length (dropWhile isspace (rev s)) = length (rev s)" by simp
  then have "dropWhile isspace (rev s) = rev s" by (rule length_dropWhile_eq)
  with 5 show ?thesis by (simp add: strip_def)
qed

lemma search_span: "search p s = Some (a, b) \<Longrightarrow> a \<le> b \<and> b \<le> length s"
  using search [of p] by blast

lemma rfind_Cons_nonneg:
  "0 \<le> rfind s sub \<Longrightarrow> rfind (c # s) sub = rfind s sub + 1"
  by (simp add: Let_def)

lemma rfind_Cons_neg:
  "\<not> 0 \<le> rfind s sub \<Longrightarrow>
   rfind (c # s) sub = (if take (length sub) (c # s) = sub then 0 else - 1)"
  by (simp add: Let_def)

lemma rfind_lower_bound: "- 1 \<le> rfind s sub"
proof (induction s)
  case Nil
  show ?case by simp
next
  case (Cons c s)
  show ?case
  proof (cases "0 \<le> rfind s sub")
    case True
    then show ?thesis by (simp add: rfind_Cons_nonneg del: rfind.simps)
  next
    case False
    then show ?thesis by (simp add: rfind_Cons_neg del: rfind.simps)
  qed
qed

lemma take_eq_length_le: "take (length sub) xs = sub \<Longrightarrow> length sub \<le> length xs"
proof -
  assume "take (length sub) xs = sub"
  then have "length sub = length (take (length sub) xs)"
    by (rule arg_cong [OF sym])
  then have "length sub = min (length sub) (length xs)" by (simp only: length_take)
  then show ?thesis by linarith
qed

lemma rfind_upper_bound: "0 \<le> rfind s sub \<Longrightarrow> nat (rfind s sub) + length sub \<le> length s"
proof (induction s)
  case Nil
  then show ?case by (simp split: if_splits)
next
  case (Cons c s)
  show ?case
  proof (cases "0 \<le> rfind s sub")
    case True
    with Cons.IH have "nat (rfind s sub) + length sub \<le> length s" by simp
    with True show ?thesis by (simp add: rfind_Cons_nonneg nat_add_distrib del: rfind.simps)
  next
    case False
    have t: "take (length sub) (c # s) = sub"
    proof (rule ccontr)
      assume "take (length sub) (c # s) \<noteq> sub"
      with False have "rfind (c # s) sub = - 1" by (simp add: rfind_Cons_neg del: rfind.simps)
      with Cons.prems show False by simp
    qed
    then have "length sub \<le> length (c # s)" by (rule take_eq_length_le)
    moreover from False t have "rfind (c # s) sub = 0" by (simp add: rfind_Cons_neg del: rfind.simps)
    ultimately show ?thesis by simp
  qed
qed

lemma rfind_occurs: "0 \<le> rfind s sub \<Longrightarrow> take (length sub) (drop (nat (rfind s sub)) s) = sub"
proof (induction s)
  case Nil
  then show ?case by (simp split: if_splits)
next
  case (Cons c s)
  show ?case
  proof (cases "0 \<le> rfind s sub")
    case True
    with Cons.IH have "take (length sub) (drop (nat (rfind s sub)) s) = sub" by simp
    with True show ?thesis by (simp add: rfind_Cons_nonneg nat_add_distrib del: rfind.simps)
  next
    case False
    have t: "take (length sub) (c # s) = sub"
    proof (rule ccontr)
      assume "take (length sub) (c # s) \<noteq> sub"
      with False have "rfind (c # s) sub = - 1" by (simp add: rfind_Cons_neg del: rfind.simps)
      with Cons.prems show False by simp
    qed
    moreover from False t have "rfind (c # s) sub = 0" by (simp add: rfind_Cons_neg del: rfind.simps)
    ultimately show ?thesis by (simp only: nat_0 drop_0)
  qed
qed

lemma length_lower [simp]: "length (lower s) = length s"
  by (simp add: lower_def)

lemma remove_pattern_length: "length (remove_pattern p s) \<le> length s"
proof (cases "search p s")
  case None
  then show ?thesis by (simp add: remove_pattern_def)
next
  case (Some ab)
  obtain a b where ab: "ab = (a, b)" by (cases ab)
  with Some have sp: "a \<le> b \<and> b \<le> length s" using search_span by blast
  have "length (strip (take a s @ drop b s)) \<le> length (take a s @ drop b s)"
    by (rule length_strip_le)
  also from sp have "\<dots> \<le> length s" by auto
  finally show ?thesis using Some ab by (simp add: remove_pattern_def)
qed

lemma remove_pattern_same_length:
  assumes "length (remove_pattern p s) = length s"
  shows "remove_pattern p s = s"
proof (cases "search p s")
  case None
  then show ?thesis by (simp add: remove_pattern_def)
next
  case (Some ab)
  obtain a b where ab: "ab = (a, b)" by (cases ab)
  with Some have sp: "a \<le> b \<and> b \<le> length s" using search_span by blast
  have r: "remove_pattern p s = strip (take a s @ drop b s)"
    using Some ab by (simp add: remove_pattern_def)
  have 1: "length (strip (take a s @ drop b s)) \<le> length (take a s @ drop b s)"
    by (rule length_strip_le)
  from sp have 2: "length (take a s @ drop b s) = length s - (b - a)" by auto
  from assms r 1 2 sp have ba: "b = a" by auto
  then have 3: "take a s @ drop b s = s" by simp
  with assms r have "strip s = s" by (simp add: strip_same_length)
  with r 3 show ?thesis by simp
qed

lemma remove_copy_cases:
  "remove_copy s = s \<or> length (remove_copy s) < length s"
proof -
  let ?d = "rfind (lower s) ''.copy''" and ?c = "rfind (lower s) '' - copy''"
  have trunc: "length (strip (take (nat i) s)) < length s"
    if "0 \<le> i" and "nat i + n \<le> length s" and "0 < n" for i :: int and n :: nat
  proof -
    have "length (strip (take (nat i) s)) \<le> length (take (nat i) s)" by (rule length_strip_le)
    with that show ?thesis by simp
  qed
  show ?thesis
  proof (cases "?c > ?d")
    case True
    have "- 1 \<le> ?d" by (rule rfind_lower_bound)
    with True have c0: "0 \<le> ?c" by simp
    then have "nat ?c + length '' - copy'' \<le> length (lower s)" by (rule rfind_upper_bound)
    with c0 have "length (strip (take (nat ?c) s)) < length s" by (intro trunc [where n = 7]) simp_all
    with True show ?thesis by (simp add: remove_copy_def Let_def)
  next
    case False
    show ?thesis
    proof (cases "?d = - 1")
      case True
      with False show ?thesis by (simp add: remove_copy_def Let_def)
    next
      case nd: False
      have "- 1 \<le> ?d" by (rule rfind_lower_bound)
      with nd have d0: "0 \<le> ?d" by simp
      then have "nat ?d + length ''.copy'' \<le> length (lower s)" by (rule rfind_upper_bound)
      with d0 have "length (strip (take (nat ?d) s)) < length s" by (intro trunc [where n = 5]) simp_all
      with False nd show ?thesis by (simp add: remove_copy_def Let_def)
    qed
  qed
qed

lemma clean_pass_cases:
  "clean_pass p dc s = s \<or> length (clean_pass p dc s) < length s"
proof (cases "length (remove_pattern p s) = length s")
  case True
  then have "remove_pattern p s = s" by (rule remove_pattern_same_length)
  then show ?thesis using remove_copy_cases [of s] by (simp add: clean_pass_def)
next
  case False
  with remove_pattern_length [of p s] have lt: "length (remove_pattern p s) < length s" by simp
  show ?thesis
  proof (cases dc)
    case True
    from remove_copy_cases [of "remove_pattern p s"] lt
    have "length (remove_copy (remove_pattern p s)) < length s" by auto
    with True show ?thesis by (simp add: clean_pass_def)
  next
    case False
    with lt show ?thesis by (simp add: clean_pass_def)
  qed
qed

subsection \<open>The loop and the function\<close>

function clean_loop :: "pattern \<Rightarrow> bool \<Rightarrow> string \<Rightarrow> string" where
  "clean_loop p detect_copy cleaned_stem =
     (let original_cleaned_stem = cleaned_stem;
          cleaned_stem = clean_pass p detect_copy cleaned_stem
      in if cleaned_stem = original_cleaned_stem then cleaned_stem
         else clean_loop p detect_copy cleaned_stem)"
  by pat_completeness auto

termination
proof (relation "measure (\<lambda>(p, dc, s). length s)")
  show "wf (measure (\<lambda>(p, dc, s). length s))" by simp
next
  fix p dc s x xa
  assume "x = s" "xa = clean_pass p dc s" "xa \<noteq> x"
  then show "((p, dc, xa), (p, dc, s)) \<in> measure (\<lambda>(p, dc, s). length s)"
    using clean_pass_cases [of p dc s] by simp
qed

declare clean_loop.simps [simp del]

text \<open>
  \<open>loop_iterations\<close> counts the runs of the loop body: it follows the recursion of
  \<open>clean_loop\<close> and returns the number of passes instead of the stem.
\<close>

function loop_iterations :: "pattern \<Rightarrow> bool \<Rightarrow> string \<Rightarrow> nat" where
  "loop_iterations p detect_copy cleaned_stem =
     (let original_cleaned_stem = cleaned_stem;
          cleaned_stem = clean_pass p detect_copy cleaned_stem
      in if cleaned_stem = original_cleaned_stem then 1
         else 1 + loop_iterations p detect_copy cleaned_stem)"
  by pat_completeness auto

termination
proof (relation "measure (\<lambda>(p, dc, s). length s)")
  show "wf (measure (\<lambda>(p, dc, s). length s))" by simp
next
  fix p dc s x xa
  assume "x = s" "xa = clean_pass p dc s" "xa \<noteq> x"
  then show "((p, dc, xa), (p, dc, s)) \<in> measure (\<lambda>(p, dc, s). length s)"
    using clean_pass_cases [of p dc s] by simp
qed

declare loop_iterations.simps [simp del]

definition clean_filename :: "pattern \<Rightarrow> bool \<Rightarrow> string \<Rightarrow> string" where
  "clean_filename p detect_copy filename =
     (let name = path_name filename;
          stem = path_stem name;
          suffix = path_suffix name;
          cleaned_stem = clean_loop p detect_copy stem
      in cleaned_stem @ suffix)"

definition clean_filename_warns :: "pattern \<Rightarrow> bool \<Rightarrow> string \<Rightarrow> bool" where
  \<comment> \<open>whether \<open>clean_filename\<close> prints its warning: \<open>if not cleaned_stem and stem\<close>\<close>
  "clean_filename_warns p detect_copy filename =
     (clean_loop p detect_copy (path_stem (path_name filename)) = [] \<and>
      path_stem (path_name filename) \<noteq> [])"

section \<open>The filesystem\<close>

text \<open>
  The filesystem is a tree. A file carries what a later \<open>stat()\<close> and \<open>unlink()\<close> of it
  answer (the scan that found the file may be out of date by then); a directory carries
  the errors, if any, that listing it, \<open>rmdir\<close> and \<open>send2trash\<close> raise, and its entries in
  the order in which the system lists them. Symbolic links are not modelled.
\<close>

datatype os_error = FileNotFoundError | PermissionError | OSError

record stat_result =
  st_ctime :: int
  st_size :: nat

type_synonym path = "string list"

text \<open>
  A \<open>Path\<close> object is modelled by the list of its components below the root \<open>/\<close>; the
  paths the tool handles are resolved, so they are absolute (POSIX flavour).
\<close>

datatype node =
    File (file_stat: "os_error + stat_result") (file_unlink: "os_error option")
  | Dir (list_error: "os_error option") (rmdir_error: "os_error option")
        (trash_error: "os_error option") (entries: "(string \<times> node) list")

fun is_file :: "node \<Rightarrow> bool" where
  "is_file (File s u) = True"
| "is_file (Dir l r t es) = False"

fun lookup :: "node \<Rightarrow> path \<Rightarrow> node option"
  and lookup_entries :: "(string \<times> node) list \<Rightarrow> string \<Rightarrow> path \<Rightarrow> node option" where
  "lookup n [] = Some n"
| "lookup (File s u) (c # p) = None"
| "lookup (Dir l r t es) (c # p) = lookup_entries es c p"
| "lookup_entries [] c p = None"
| "lookup_entries ((name, n) # es) c p =
     (if name = c then lookup n p else lookup_entries es c p)"

definition stat :: "node \<Rightarrow> path \<Rightarrow> os_error + stat_result" where
  \<comment> \<open>\<open>f.stat()\<close> for a path that the scan returned as a file\<close>
  "stat fs p =
     (case lookup fs p of
        None \<Rightarrow> Inl FileNotFoundError
      | Some (File s u) \<Rightarrow> s
      | Some (Dir l r t es) \<Rightarrow> Inl OSError)"

fun remove_path :: "path \<Rightarrow> node \<Rightarrow> node"
  and remove_in :: "string \<Rightarrow> path \<Rightarrow> (string \<times> node) list \<Rightarrow> (string \<times> node) list" where
  \<comment> \<open>the tree without the entry at the path\<close>
  "remove_path [] n = n"
| "remove_path (c # p) (File s u) = File s u"
| "remove_path (c # p) (Dir l r t es) = Dir l r t (remove_in c p es)"
| "remove_in c p [] = []"
| "remove_in c p ((name, n) # es) =
     (if name = c then (if p = [] then es else (name, remove_path p n) # es)
      else (name, n) # remove_in c p es)"

definition immediate_files :: "path \<Rightarrow> (string \<times> node) list \<Rightarrow> path list" where
  \<comment> \<open>\<open>[entry for entry in d.iterdir() if entry.is_file()]\<close>\<close>
  "immediate_files d es = map (\<lambda>e. d @ [fst e]) (filter (\<lambda>e. is_file (snd e)) es)"

fun rglob :: "path \<Rightarrow> node \<Rightarrow> path list"
  and rglob_sub :: "path \<Rightarrow> (string \<times> node) list \<Rightarrow> path list" where
  \<comment> \<open>the files among \<open>d.rglob('*')\<close>: those of the directory, then those of each
      subdirectory in turn (Python fixes no order); a directory that cannot be listed
      yields nothing\<close>
  "rglob d (File s u) = []"
| "rglob d (Dir l r t es) =
     (if l \<noteq> None then [] else immediate_files d es @ rglob_sub d es)"
| "rglob_sub d [] = []"
| "rglob_sub d ((name, n) # es) = rglob (d @ [name]) n @ rglob_sub d es"

section \<open>\<open>find_and_remove_duplicates\<close>\<close>

subsection \<open>Grouping keys and groups\<close>

definition joinpath :: "string \<Rightarrow> string \<Rightarrow> string" where
  "joinpath a c = (if a = ''/'' then a @ c else a @ ''/'' @ c)"

definition path_str :: "path \<Rightarrow> string" where
  \<comment> \<open>\<open>str(file_path)\<close> of a resolved path, given by its components below the root \<open>/\<close>\<close>
  "path_str p = foldl joinpath ''/'' p"

definition path_div :: "string \<Rightarrow> string \<Rightarrow> string" where
  \<comment> \<open>\<open>str(parent / name)\<close> for a name without separator: an empty name and \<open>.\<close> are dropped\<close>
  "path_div parent name = (if name = [] \<or> name = ''.'' then parent else joinpath parent name)"

definition name_of :: "path \<Rightarrow> string" where
  \<comment> \<open>\<open>file_path.name\<close>; \<open>file_path.parent\<close> is \<open>butlast\<close>\<close>
  "name_of p = (case rev p of [] \<Rightarrow> [] | n # _ \<Rightarrow> n)"

definition group_key :: "pattern \<Rightarrow> bool \<Rightarrow> path \<Rightarrow> string" where
  \<comment> \<open>\<open>str(file_path.parent / cleaned_name).lower()\<close>\<close>
  "group_key p detect_copy file_path =
     (let cleaned_name = clean_filename p detect_copy (name_of file_path)
      in lower (path_div (path_str (butlast file_path)) cleaned_name))"

fun add_to_group :: "string \<Rightarrow> path \<Rightarrow> (string \<times> path list) list \<Rightarrow> (string \<times> path list) list" where
  \<comment> \<open>\<open>file_groups[group_key].append(file_path)\<close> on a dictionary that keeps insertion order\<close>
  "add_to_group k f [] = [(k, [f])]"
| "add_to_group k f ((k', files) # gs) =
     (if k = k' then (k', files @ [f]) # gs else (k', files) # add_to_group k f gs)"

definition group_files :: "(path \<Rightarrow> string) \<Rightarrow> path list \<Rightarrow> (string \<times> path list) list" where
  "group_files key all_files = foldl (\<lambda>file_groups f. add_to_group (key f) f file_groups) [] all_files"

subsection \<open>Metadata, sorting and the files to remove\<close>

text \<open>
  The steps between grouping and deletion take the answers of \<open>f.stat()\<close> as a function
  \<open>stat_of\<close>; the tool runs them on \<open>stat fs\<close>.
\<close>

datatype message = Stat_warning os_error path

definition files_with_stat ::
  "(path \<Rightarrow> os_error + stat_result) \<Rightarrow> path list \<Rightarrow> (path \<times> stat_result) list" where
  "files_with_stat stat_of files =
     concat (map (\<lambda>f. case stat_of f of Inr st \<Rightarrow> [(f, st)] | Inl e \<Rightarrow> []) files)"

definition stat_warnings :: "(path \<Rightarrow> os_error + stat_result) \<Rightarrow> path list \<Rightarrow> message list" where
  "stat_warnings stat_of files =
     concat (map (\<lambda>f. case stat_of f of Inr st \<Rightarrow> [] | Inl e \<Rightarrow> [Stat_warning e f]) files)"

definition sorted_group :: "(path \<Rightarrow> os_error + stat_result) \<Rightarrow> path list \<Rightarrow> path list option" where
  "sorted_group stat_of files =
     (if length files > 1
      then (let fws = files_with_stat stat_of files
            in if length fws > 1
               then Some (map fst (sort_key (\<lambda>item. st_ctime (snd item)) fws))
               else None)
      else None)"

definition groups_with_duplicates ::
  "(path \<Rightarrow> os_error + stat_result) \<Rightarrow> (string \<times> path list) list \<Rightarrow> (string \<times> path list) list" where
  "groups_with_duplicates stat_of file_groups =
     concat (map (\<lambda>(group_key, files).
        case sorted_group stat_of files of None \<Rightarrow> [] | Some sorted_files \<Rightarrow> [(group_key, sorted_files)])
      file_groups)"

definition group_warnings ::
  "(path \<Rightarrow> os_error + stat_result) \<Rightarrow> (string \<times> path list) list \<Rightarrow> message list" where
  "group_warnings stat_of file_groups =
     concat (map (\<lambda>(group_key, files). if length files > 1 then stat_warnings stat_of files else [])
       file_groups)"

definition duplicates_in_group ::
  "(path \<Rightarrow> os_error + stat_result) \<Rightarrow> path list \<Rightarrow> (path \<times> nat) list" where
  \<comment> \<open>the loop over \<open>files[1:]\<close>: a file whose size cannot be read is skipped\<close>
  "duplicates_in_group stat_of files =
     concat (map (\<lambda>f. case stat_of f of Inr st \<Rightarrow> [(f, st_size st)] | Inl e \<Rightarrow> []) (tl files))"

definition collect_files_to_remove ::
  "(path \<Rightarrow> os_error + stat_result) \<Rightarrow> (string \<times> path list) list \<Rightarrow> (path \<times> nat) list" where
  "collect_files_to_remove stat_of file_groups =
     concat (map (\<lambda>(group_key, files). duplicates_in_group stat_of files) file_groups)"

definition deletion_candidates ::
  "(path \<Rightarrow> string) \<Rightarrow> (path \<Rightarrow> os_error + stat_result) \<Rightarrow> path list \<Rightarrow> (path \<times> nat) list" where
  "deletion_candidates key stat_of all_files =
     collect_files_to_remove stat_of (groups_with_duplicates stat_of (group_files key all_files))"

subsection \<open>Deletion and the whole run\<close>

datatype outcome =
    Directory_not_found | Not_a_directory | Invalid_pattern | Listing_failed
  | No_duplicate_groups | Nothing_marked | Dry_run_finished | Aborted_on_eof
  | Cancelled_by_user | Finished nat nat

record run =
  fs_after :: node
  outcome :: outcome
  warnings :: "message list"
  kept :: "path list"
  files_to_remove :: "(path \<times> nat) list"
  deleted :: "path list"

definition plan :: "pattern \<Rightarrow> bool \<Rightarrow> node \<Rightarrow> path list \<Rightarrow> (path \<times> nat) list" where
  \<comment> \<open>\<open>files_to_remove\<close> after \<open>files_to_remove.sort(key=lambda item: str(item[0]).lower())\<close>\<close>
  "plan p detect_copy fs all_files =
     sort_key (\<lambda>item. lower (path_str (fst item)))
       (deletion_candidates (group_key p detect_copy) (stat fs) all_files)"

text \<open>
  The deletion loop unlinks a path when \<open>exists()\<close> holds and \<open>unlink()\<close> raises nothing. A
  path that is gone is skipped, and an error is caught: in both cases the loop goes on with
  the filesystem as it is.
\<close>

fun delete_files :: "(path \<times> nat) list \<Rightarrow> node \<times> path list \<times> nat \<Rightarrow> node \<times> path list \<times> nat" where
  \<comment> \<open>the state is (filesystem, files unlinked, \<open>deleted_size\<close>)\<close>
  "delete_files [] st = st"
| "delete_files ((file_path, file_size) # rest) (fs, unlinked, deleted_size) =
     delete_files rest
       (case lookup fs file_path of
          None \<Rightarrow> (fs, unlinked, deleted_size)
        | Some (Dir l r t es) \<Rightarrow> (fs, unlinked, deleted_size)
        | Some (File s u) \<Rightarrow>
            (case s of
               Inl e \<Rightarrow> (fs, unlinked, deleted_size)
             | Inr st \<Rightarrow>
                 (case u of
                    Some e \<Rightarrow> (fs, unlinked, deleted_size)
                  | None \<Rightarrow> (remove_path file_path fs, unlinked @ [file_path], deleted_size + file_size))))"

definition stopped :: "node \<Rightarrow> outcome \<Rightarrow> run" where
  "stopped fs out = \<lparr>fs_after = fs, outcome = out, warnings = [], kept = [],
     files_to_remove = [], deleted = []\<rparr>"

definition confirmed :: "string option \<Rightarrow> bool" where
  \<comment> \<open>\<open>input(...).strip().lower() == 'yes'\<close>; \<open>None\<close> is end of input\<close>
  "confirmed answer = (case answer of None \<Rightarrow> False | Some a \<Rightarrow> lower (strip a) = ''yes'')"

definition process_groups ::
  "node \<Rightarrow> bool \<Rightarrow> pattern \<Rightarrow> bool \<Rightarrow> bool \<Rightarrow> string option \<Rightarrow> path list \<Rightarrow> run" where
  \<comment> \<open>the function from \<open>Grouping files...\<close> to its end\<close>
  "process_groups fs dry_run p auto_confirm detect_copy answer all_files =
     (let first_groups = group_files (group_key p detect_copy) all_files;
          ws = group_warnings (stat fs) first_groups;
          file_groups = groups_with_duplicates (stat fs) first_groups;
          keep = map (\<lambda>g. hd (snd g)) file_groups;
          to_remove = plan p detect_copy fs all_files;
          r = \<lparr>fs_after = fs, outcome = No_duplicate_groups, warnings = ws, kept = [],
               files_to_remove = [], deleted = []\<rparr>
      in if file_groups = [] then r
         else if to_remove = [] then r\<lparr>outcome := Nothing_marked, kept := keep\<rparr>
         else if dry_run
           then r\<lparr>outcome := Dry_run_finished, kept := keep, files_to_remove := to_remove\<rparr>
         else if \<not> auto_confirm \<and> answer = None
           then r\<lparr>outcome := Aborted_on_eof, kept := keep, files_to_remove := to_remove\<rparr>
         else if \<not> auto_confirm \<and> \<not> confirmed answer
           then r\<lparr>outcome := Cancelled_by_user, kept := keep, files_to_remove := to_remove\<rparr>
         else (case delete_files to_remove (fs, [], 0) of
                 (fs', del, deleted_size) \<Rightarrow>
                   \<lparr>fs_after = fs', outcome = Finished (length del) deleted_size,
                    warnings = ws, kept = keep, files_to_remove = to_remove, deleted = del\<rparr>))"

definition find_and_remove_duplicates ::
  "node \<Rightarrow> path \<Rightarrow> bool \<Rightarrow> pattern option \<Rightarrow> bool \<Rightarrow> bool \<Rightarrow> bool \<Rightarrow> string option \<Rightarrow> run" where
  "find_and_remove_duplicates fs directory dry_run pattern auto_confirm detect_copy recursive answer =
     (case lookup fs directory of
        None \<Rightarrow> stopped fs Directory_not_found
      | Some (File s u) \<Rightarrow> stopped fs Not_a_directory
      | Some (Dir l r t es) \<Rightarrow>
          (case pattern of
             None \<Rightarrow> stopped fs Invalid_pattern
           | Some p \<Rightarrow>
               if recursive
               then process_groups fs dry_run p auto_confirm detect_copy answer
                      (rglob directory (Dir l r t es))
               else if l \<noteq> None then stopped fs Listing_failed
               else process_groups fs dry_run p auto_confirm detect_copy answer
                      (immediate_files directory es)))"

section \<open>The empty-directory pruners\<close>

text \<open>
  \<open>os.walk(root, topdown=False)\<close> lists a directory, walks each of its subdirectories in
  turn and then yields the directory itself; a directory that cannot be listed is skipped
  without a word. The body of the \<open>for\<close> loop runs at each yield, on the filesystem as the
  bodies before it have left it, and changes nothing but the directory it is given. The walk
  is therefore a recursion over the tree that hands back each subtree as the loop has left
  it: \<open>None\<close> once the directory is gone.
\<close>

text \<open>
  Beside the two counts that the pruners return, the state of a walk records the
  directories on which the loop body has run and those it has removed, in order.
\<close>

record counters =
  deleted_count :: nat
  error_count :: nat
  visited :: "path list"
  removed :: "path list"

definition start :: counters where
  "start = \<lparr>deleted_count = 0, error_count = 0, visited = [], removed = []\<rparr>"

fun walk :: "(path \<Rightarrow> node \<Rightarrow> counters \<Rightarrow> node option \<times> counters) \<Rightarrow>
    path \<Rightarrow> node \<Rightarrow> counters \<Rightarrow> node option \<times> counters"
  and walk_entries :: "(path \<Rightarrow> node \<Rightarrow> counters \<Rightarrow> node option \<times> counters) \<Rightarrow>
    path \<Rightarrow> (string \<times> node) list \<Rightarrow> counters \<Rightarrow> (string \<times> node) list \<times> counters" where
  "walk body d (File s u) c = (Some (File s u), c)"
| "walk body d (Dir l r t es) c =
     (if l \<noteq> None then (Some (Dir l r t es), c)
      else (case walk_entries body d es c of
              (es', c') \<Rightarrow> body d (Dir l r t es') (c'\<lparr>visited := visited c' @ [d]\<rparr>)))"
| "walk_entries body d [] c = ([], c)"
| "walk_entries body d ((name, n) # es) c =
     (case walk body (d @ [name]) n c of
        (n', c') \<Rightarrow>
          (case walk_entries body d es c' of
             (es', c'') \<Rightarrow> ((case n' of None \<Rightarrow> es' | Some m \<Rightarrow> (name, m) # es'), c'')))"

subsection \<open>\<open>clean_empty_dir.py\<close>\<close>

fun check_dir :: "bool \<Rightarrow> path \<Rightarrow> node \<Rightarrow> counters \<Rightarrow> node option \<times> counters" where
  \<comment> \<open>the body of the loop of \<open>delete_empty_dirs_recursive\<close>\<close>
  "check_dir dry_run current_dir (File s u) c =
     (Some (File s u), c\<lparr>error_count := error_count c + 1\<rparr>)"
| "check_dir dry_run current_dir (Dir l r t es) c =
     (if l \<noteq> None then (Some (Dir l r t es), c\<lparr>error_count := error_count c + 1\<rparr>)
      else if es \<noteq> [] then (Some (Dir l r t es), c)
      else if dry_run then (Some (Dir l r t es), c\<lparr>deleted_count := deleted_count c + 1\<rparr>)
      else (case r of
              None \<Rightarrow> (None, c\<lparr>deleted_count := deleted_count c + 1,
                                removed := removed c @ [current_dir]\<rparr>)
            | Some e \<Rightarrow> (Some (Dir l r t es), c\<lparr>error_count := error_count c + 1\<rparr>)))"

definition delete_empty_dirs_recursive :: "path \<Rightarrow> node \<Rightarrow> bool \<Rightarrow> node option \<times> counters" where
  \<comment> \<open>the directory as the run leaves it, and the counts the function returns\<close>
  "delete_empty_dirs_recursive root_dir_path root dry_run =
     walk (check_dir dry_run) root_dir_path root start"

datatype confirm_result = Confirm_yes | Confirm_no | Confirm_abort

datatype exit_status = Exit_ok | Exit_aborted

definition cli :: "path \<Rightarrow> node \<Rightarrow> bool \<Rightarrow> bool \<Rightarrow> confirm_result \<Rightarrow>
    exit_status \<times> node option \<times> counters" where
  \<comment> \<open>\<open>click.confirm(..., default=False, abort=True)\<close> returns on yes and raises \<open>Abort\<close>
      on no, on the empty answer (the default) and at the end of input\<close>
  "cli root_dir root dry_run yes answer =
     (if \<not> dry_run \<and> \<not> yes \<and> answer \<noteq> Confirm_yes then (Exit_aborted, Some root, start)
      else (case delete_empty_dirs_recursive root_dir root dry_run of
              (root', c) \<Rightarrow> (Exit_ok, root', c)))"

subsection \<open>\<open>clean_empty_dir_deepseek.py\<close>\<close>

definition removal_error :: "bool \<Rightarrow> os_error option \<Rightarrow> os_error option \<Rightarrow> os_error option" where
  \<comment> \<open>\<open>rmdir()\<close> when \<open>force_delete\<close> is set, \<open>send2trash\<close> otherwise\<close>
  "removal_error force_delete r t = (if force_delete then r else t)"

fun check_dir_deepseek :: "bool \<Rightarrow> path \<Rightarrow> node \<Rightarrow> counters \<Rightarrow> node option \<times> counters" where
  \<comment> \<open>the body of the loop of \<open>delete_empty_recursive\<close>: \<open>FileNotFoundError\<close> is passed
      over, any other \<open>OSError\<close> is counted\<close>
  "check_dir_deepseek force_delete current_dir (File s u) c =
     (Some (File s u), c\<lparr>error_count := error_count c + 1\<rparr>)"
| "check_dir_deepseek force_delete current_dir (Dir l r t es) c =
     (case l of
        Some e \<Rightarrow>
          (Some (Dir l r t es),
           if e = FileNotFoundError then c else c\<lparr>error_count := error_count c + 1\<rparr>)
      | None \<Rightarrow>
          if es \<noteq> [] then (Some (Dir l r t es), c)
          else (case removal_error force_delete r t of
                  None \<Rightarrow> (None, c\<lparr>deleted_count := deleted_count c + 1,
                                    removed := removed c @ [current_dir]\<rparr>)
                | Some e \<Rightarrow>
                    (Some (Dir l r t es),
                     if e = FileNotFoundError then c
                     else c\<lparr>error_count := error_count c + 1\<rparr>)))"

fun final_root_check :: "bool \<Rightarrow> path \<Rightarrow> node option \<Rightarrow> counters \<Rightarrow> node option \<times> counters" where
  \<comment> \<open>the check of the root after the loop: every \<open>OSError\<close> is counted\<close>
  "final_root_check force_delete root_dir None c = (None, c)"
| "final_root_check force_delete root_dir (Some (File s u)) c =
     (Some (File s u), c\<lparr>error_count := error_count c + 1\<rparr>)"
| "final_root_check force_delete root_dir (Some (Dir l r t es)) c =
     (if l \<noteq> None then (Some (Dir l r t es), c\<lparr>error_count := error_count c + 1\<rparr>)
      else if es \<noteq> [] then (Some (Dir l r t es), c)
      else (case removal_error force_delete r t of
              None \<Rightarrow> (None, c\<lparr>deleted_count := deleted_count c + 1,
                                removed := removed c @ [root_dir]\<rparr>)
            | Some e \<Rightarrow> (Some (Dir l r t es), c\<lparr>error_count := error_count c + 1\<rparr>)))"

definition delete_empty_recursive :: "path \<Rightarrow> node \<Rightarrow> bool \<Rightarrow> node option \<times> counters" where
  \<comment> \<open>\<open>verbose_level\<close> only sets up logging and is left out\<close>
  "delete_empty_recursive root_dir_path root force_delete =
     (case walk (check_dir_deepseek force_delete) root_dir_path root start of
        (root', c) \<Rightarrow> final_root_check force_delete root_dir_path root' c)"

chapter \<open>Properties\<close>

section \<open>Notions used in the statements\<close>

text \<open>
  None of the definitions of this section is part of the programs: they say what the
  properties are about.
\<close>

subsection \<open>Duplicate markers and extensions\<close>

definition occurs_at :: "string \<Rightarrow> string \<Rightarrow> nat \<Rightarrow> bool" where
  \<comment> \<open>\<open>sub\<close> starts at index \<open>i\<close> of \<open>s\<close>\<close>
  "occurs_at sub s i = (i + length sub \<le> length s \<and> take (length sub) (drop i s) = sub)"

definition marker_at :: "string \<Rightarrow> string \<Rightarrow> nat \<Rightarrow> bool" where
  \<comment> \<open>the lower-case literal \<open>m\<close> starts at index \<open>i\<close> of \<open>s\<close>, in any letter case\<close>
  "marker_at m s i = (i + length m \<le> length s \<and> lower (take (length m) (drop i s)) = m)"

definition copy_marker_at :: "string \<Rightarrow> nat \<Rightarrow> bool" where
  "copy_marker_at s i = (marker_at ''.copy'' s i \<or> marker_at '' - copy'' s i)"

definition is_ext :: "string \<Rightarrow> bool" where
  \<comment> \<open>an extension as \<open>PurePath.suffix\<close> returns it: a dot followed by one or more characters other than the dot\<close>
  "is_ext e = (case e of [] \<Rightarrow> False | c # e' \<Rightarrow> c = CHR ''.'' \<and> e' \<noteq> [] \<and> CHR ''.'' \<notin> set e')"

subsection \<open>Groups\<close>

definition group_of :: "(string \<times> path list) list \<Rightarrow> string \<Rightarrow> path list" where
  \<comment> \<open>the files stored under a key, none when the key is absent\<close>
  "group_of gs k = (case map_of gs k of None \<Rightarrow> [] | Some g \<Rightarrow> g)"

definition ctime_of :: "(path \<Rightarrow> os_error + stat_result) \<Rightarrow> path \<Rightarrow> int" where
  \<comment> \<open>the creation time that a successful \<open>stat\<close> of the file reports\<close>
  "ctime_of stat_of f = st_ctime (projr (stat_of f))"

definition readable :: "(path \<Rightarrow> os_error + stat_result) \<Rightarrow> path list \<Rightarrow> path list" where
  \<comment> \<open>the members of a group whose \<open>stat\<close> succeeds, in the order of the group\<close>
  "readable stat_of files = filter (\<lambda>f. \<not> isl (stat_of f)) files"

subsection \<open>Shapes of directory trees\<close>

fun hollow :: "node \<Rightarrow> bool" and hollow_entries :: "(string \<times> node) list \<Rightarrow> bool" where
  \<comment> \<open>a directory that holds no file at any depth\<close>
  "hollow (File s u) = False"
| "hollow (Dir l r t es) = hollow_entries es"
| "hollow_entries [] = True"
| "hollow_entries ((name, n) # es) = (hollow n \<and> hollow_entries es)"

fun permissive :: "node \<Rightarrow> bool" and permissive_entries :: "(string \<times> node) list \<Rightarrow> bool" where
  \<comment> \<open>every directory can be listed and removed: no call raises\<close>
  "permissive (File s u) = True"
| "permissive (Dir l r t es) = (l = None \<and> r = None \<and> t = None \<and> permissive_entries es)"
| "permissive_entries [] = True"
| "permissive_entries ((name, n) # es) = (permissive n \<and> permissive_entries es)"

fun no_empty_dir :: "node \<Rightarrow> bool" and no_empty_dir_entries :: "(string \<times> node) list \<Rightarrow> bool" where
  \<comment> \<open>no directory of the tree is empty\<close>
  "no_empty_dir (File s u) = True"
| "no_empty_dir (Dir l r t es) = (es \<noteq> [] \<and> no_empty_dir_entries es)"
| "no_empty_dir_entries [] = True"
| "no_empty_dir_entries ((name, n) # es) = (no_empty_dir n \<and> no_empty_dir_entries es)"

fun wf_node :: "node \<Rightarrow> bool" and wf_entries :: "(string \<times> node) list \<Rightarrow> bool" where
  \<comment> \<open>the names in a directory are distinct\<close>
  "wf_node (File s u) = True"
| "wf_node (Dir l r t es) = (distinct (map fst es) \<and> wf_entries es)"
| "wf_entries [] = True"
| "wf_entries ((name, n) # es) = (wf_node n \<and> wf_entries es)"

definition removes_empty :: "(path \<Rightarrow> node \<Rightarrow> counters \<Rightarrow> node option \<times> counters) \<Rightarrow> bool" where
  \<comment> \<open>what a loop body does with a directory on which no call raises\<close>
  "removes_empty body =
     (\<forall>d es c. body d (Dir None None None es) c =
        (if es = [] then (None, c\<lparr>deleted_count := deleted_count c + 1, removed := removed c @ [d]\<rparr>)
         else (Some (Dir None None None es), c)))"

definition keeps_visited :: "(path \<Rightarrow> node \<Rightarrow> counters \<Rightarrow> node option \<times> counters) \<Rightarrow> bool" where
  \<comment> \<open>a loop body does not touch the record of the visits, which the walk keeps\<close>
  "keeps_visited body = (\<forall>d n c. visited (snd (body d n c)) = visited c)"

fun post_order :: "path \<Rightarrow> node \<Rightarrow> path list"
  and post_order_entries :: "path \<Rightarrow> (string \<times> node) list \<Rightarrow> path list" where
  \<comment> \<open>the directories that can be listed, each after the directories below it\<close>
  "post_order d (File s u) = []"
| "post_order d (Dir l r t es) = (if l \<noteq> None then [] else post_order_entries d es @ [d])"
| "post_order_entries d [] = []"
| "post_order_entries d ((name, n) # es) = post_order (d @ [name]) n @ post_order_entries d es"

definition visits_bottom_up :: "path \<Rightarrow> node option \<times> counters \<Rightarrow> bool" where
  \<comment> \<open>no directory is visited before a directory below it, and the root is visited last\<close>
  "visits_bottom_up root_dir res =
     (sorted_wrt (\<lambda>p q. \<not> strict_prefix p q) (visited (snd res)) \<and>
      visited (snd res) \<noteq> [] \<and> last (visited (snd res)) = root_dir)"

definition cascaded :: "node \<Rightarrow> node option \<times> counters \<Rightarrow> bool" where
  \<comment> \<open>no error is counted and no empty directory is left: a tree without files is gone,
      each of its directories removed when it was visited\<close>
  "cascaded root res =
     (error_count (snd res) = 0 \<and>
      (case fst res of
         None \<Rightarrow> hollow root \<and> removed (snd res) = visited (snd res)
       | Some n' \<Rightarrow> \<not> hollow root \<and> no_empty_dir n'))"

subsection \<open>Example inputs\<close>

definition meta :: "int \<Rightarrow> nat \<Rightarrow> node" where
  "meta t n = File (Inr \<lparr>st_ctime = t, st_size = n\<rparr>) None"

definition example_fs :: node where
  \<comment> \<open>\<open>/d\<close> holds \<open>a.txt\<close>, three numbered copies of it, the last one unreadable,
      and \<open>b.txt\<close>\<close>
  "example_fs =
     Dir None None None
       [(''d'', Dir None None None
          [(''a.txt'', meta 5 10),
           (''a (1).txt'', meta 3 20),
           (''a (2).txt'', meta 3 30),
           (''a (3).txt'', File (Inl PermissionError) None),
           (''b.txt'', meta 1 40)])]"

definition example_files :: "path list" where
  "example_files =
     [[''d'', ''a.txt''], [''d'', ''a (1).txt''], [''d'', ''a (2).txt''],
      [''d'', ''a (3).txt''], [''d'', ''b.txt'']]"

definition empty_dir :: node where
  "empty_dir = Dir None None None []"

definition abc :: node where
  \<comment> \<open>the directory \<open>a\<close>, holding \<open>b\<close>, holding the empty directory \<open>c\<close>\<close>
  "abc = Dir None None None [(''b'', Dir None None None [(''c'', empty_dir)])]"

section \<open>Facts about \<open>clean_filename\<close>\<close>

lemma match_here_bound: "match_here s = Some n \<Longrightarrow> n \<le> length s"
proof -
  assume m: "match_here s = Some n"
  define ws where "ws = takeWhile isspace s"
  define r where "r = dropWhile isspace s"
  have s: "s = ws @ r" by (simp add: ws_def r_def)
  from m obtain r' where r: "r = CHR ''('' # r'"
    by (auto simp: match_here_def r_def Let_def split: list.splits if_splits)
  define ds where "ds = takeWhile isdigit r'"
  define r'' where "r'' = dropWhile isdigit r'"
  have r': "r' = ds @ r''" by (simp add: ds_def r''_def)
  from m r have c: "take 1 r'' = '')''" and n: "n = length ws + 1 + length ds + 1"
    by (auto simp: match_here_def r_def ws_def ds_def r''_def Let_def split: list.splits if_splits)
  from c have "1 \<le> length r''" by (cases r'') auto
  with s r r' n show ?thesis by simp
qed

lemma default_search_span:
  "re_search match_here s = Some (a, b) \<Longrightarrow> a \<le> b \<and> b \<le> length s"
proof (induction s arbitrary: a b)
  case Nil
  then show ?case using match_here_bound [of "[]"] by (auto split: option.splits)
next
  case (Cons c s)
  show ?case
  proof (cases "match_here (c # s)")
    case (Some n)
    with Cons.prems match_here_bound [of "c # s" n] show ?thesis
      by (simp)
  next
    case None
    with Cons.prems obtain a' b' where "re_search match_here s = Some (a', b')" "a = Suc a'" "b = Suc b'"
      by (auto split: option.splits)
    with Cons.IH [of a' b'] show ?thesis by simp
  qed
qed

lemma search_default: "search default_pattern = re_search match_here"
  unfolding default_pattern_def
  by (rule Pattern_inverse) (use default_search_span in blast)

lemma clean_loop_unfold:
  "clean_loop p dc s = (if clean_pass p dc s = s then s else clean_loop p dc (clean_pass p dc s))"
  by (simp add: clean_loop.simps [of p dc s] Let_def)

lemma loop_iterations_unfold:
  "loop_iterations p dc s =
     (if clean_pass p dc s = s then 1 else 1 + loop_iterations p dc (clean_pass p dc s))"
  by (simp add: loop_iterations.simps [of p dc s] Let_def)

lemma loop_iterations_bound: "loop_iterations p dc s \<le> length s + 1"
proof (induction p dc s rule: loop_iterations.induct)
  case (1 p dc s)
  show ?case
  proof (cases "clean_pass p dc s = s")
    case True
    then show ?thesis by (simp add: loop_iterations_unfold [of p dc s])
  next
    case False
    with clean_pass_cases [of p dc s] have lt: "length (clean_pass p dc s) < length s" by simp
    from False have "loop_iterations p dc (clean_pass p dc s) \<le> length (clean_pass p dc s) + 1"
      by (intro "1.IH") simp_all
    with lt False show ?thesis by (simp add: loop_iterations_unfold [of p dc s])
  qed
qed

lemma clean_loop_funpow:
  "clean_loop p dc s = (clean_pass p dc ^^ loop_iterations p dc s) s"
proof (induction p dc s rule: clean_loop.induct)
  case (1 p dc s)
  show ?case
  proof (cases "clean_pass p dc s = s")
    case True
    then show ?thesis
      by (simp add: loop_iterations_unfold [of p dc s] clean_loop_unfold [of p dc s])
  next
    case False
    then have "clean_loop p dc (clean_pass p dc s) =
        (clean_pass p dc ^^ loop_iterations p dc (clean_pass p dc s)) (clean_pass p dc s)"
      by (intro "1.IH") simp_all
    with False show ?thesis
      by (simp add: loop_iterations_unfold [of p dc s] clean_loop_unfold [of p dc s] funpow_swap1)
  qed
qed

lemma clean_loop_fixpoint: "clean_pass p dc (clean_loop p dc s) = clean_loop p dc s"
proof (induction p dc s rule: clean_loop.induct)
  case (1 p dc s)
  show ?case
  proof (cases "clean_pass p dc s = s")
    case True
    then show ?thesis by (simp add: clean_loop_unfold [of p dc s])
  next
    case False
    then have "clean_pass p dc (clean_loop p dc (clean_pass p dc s)) = clean_loop p dc (clean_pass p dc s)"
      by (intro "1.IH") simp_all
    with False show ?thesis by (simp add: clean_loop_unfold [of p dc s])
  qed
qed

lemma clean_loop_idem: "clean_loop p dc (clean_loop p dc s) = clean_loop p dc s"
  using clean_loop_fixpoint [of p dc s] by (simp add: clean_loop_unfold [of p dc "clean_loop p dc s"])

lemma clean_loop_unchanged: "clean_pass p dc s = s \<Longrightarrow> clean_loop p dc s = s"
  by (simp add: clean_loop_unfold [of p dc s])

lemma marker_at_lower: "marker_at m s i = occurs_at m (lower s) i"
  by (simp add: marker_at_def occurs_at_def lower_def take_map drop_map)

lemma occurs_at_Nil: "occurs_at sub [] i \<Longrightarrow> sub = [] \<and> i = 0"
  by (auto simp: occurs_at_def)

lemma occurs_at_Cons_0: "occurs_at sub (c # s) 0 \<longleftrightarrow> take (length sub) (c # s) = sub"
proof
  assume "occurs_at sub (c # s) 0"
  then show "take (length sub) (c # s) = sub" by (simp add: occurs_at_def)
next
  assume t: "take (length sub) (c # s) = sub"
  then have "length sub \<le> length (c # s)" by (rule take_eq_length_le)
  with t show "occurs_at sub (c # s) 0" by (simp add: occurs_at_def)
qed

lemma occurs_at_Cons_Suc: "occurs_at sub (c # s) (Suc i) \<longleftrightarrow> occurs_at sub s i"
  by (simp add: occurs_at_def)

lemma rfind_occurs_at: "0 \<le> rfind s sub \<Longrightarrow> occurs_at sub s (nat (rfind s sub))"
  using rfind_occurs [of s sub] rfind_upper_bound [of s sub] by (simp add: occurs_at_def)

lemma rfind_is_last: "occurs_at sub s i \<Longrightarrow> int i \<le> rfind s sub"
proof (induction s arbitrary: i)
  case Nil
  then have "sub = [] \<and> i = 0" by (rule occurs_at_Nil)
  then show ?case by simp
next
  case (Cons c s)
  show ?case
  proof (cases i)
    case 0
    with Cons.prems have t: "take (length sub) (c # s) = sub" by (simp add: occurs_at_Cons_0)
    show ?thesis
    proof (cases "0 \<le> rfind s sub")
      case True
      with 0 show ?thesis by (simp add: rfind_Cons_nonneg del: rfind.simps)
    next
      case False
      with t 0 show ?thesis by (simp add: rfind_Cons_neg del: rfind.simps)
    qed
  next
    case (Suc j)
    with Cons.prems have "occurs_at sub s j" by (simp add: occurs_at_Cons_Suc)
    then have j: "int j \<le> rfind s sub" by (rule Cons.IH)
    then have "0 \<le> rfind s sub" by simp
    with j Suc show ?thesis by (simp add: rfind_Cons_nonneg del: rfind.simps)
  qed
qed

lemma rfind_eqI:
  assumes "occurs_at sub s i" and "\<And>j. occurs_at sub s j \<Longrightarrow> j \<le> i"
  shows "rfind s sub = int i"
proof -
  from assms(1) have le: "int i \<le> rfind s sub" by (rule rfind_is_last)
  then have "0 \<le> rfind s sub" by simp
  then have "occurs_at sub s (nat (rfind s sub))" by (rule rfind_occurs_at)
  then have "nat (rfind s sub) \<le> i" by (rule assms(2))
  with le show ?thesis by simp
qed

lemma rfind_none: "(\<And>i. \<not> occurs_at sub s i) \<Longrightarrow> rfind s sub = - 1"
proof -
  assume no: "\<And>i. \<not> occurs_at sub s i"
  have "\<not> 0 \<le> rfind s sub" using rfind_occurs_at [of s sub] no by blast
  with rfind_lower_bound [of s sub] show ?thesis by simp
qed

lemma occurs_at_head:
  "occurs_at (c # sub) s i \<Longrightarrow> s ! i = c"
proof -
  assume o: "occurs_at (c # sub) s i"
  then have i: "i < length s" by (simp add: occurs_at_def)
  from o have "take (Suc (length sub)) (drop i s) = c # sub" by (simp add: occurs_at_def)
  then have "take (Suc (length sub)) (drop i s) ! 0 = c" by simp
  with i show ?thesis by simp
qed

lemma remove_copy_no_marker:
  assumes "\<And>i. \<not> copy_marker_at s i"
  shows "remove_copy s = s"
proof -
  from assms have "rfind (lower s) ''.copy'' = - 1" 
    by (intro rfind_none) (simp add: copy_marker_at_def marker_at_lower)
  moreover from assms have "rfind (lower s) '' - copy'' = - 1"
    by (intro rfind_none) (simp add: copy_marker_at_def marker_at_lower)
  ultimately show ?thesis by (simp add: remove_copy_def)
qed


lemma split_slash_not_Nil: "split_slash s \<noteq> []"
  by (induction s) (auto split: list.splits)

lemma split_slash_no_slash: "CHR ''/'' \<notin> set s \<Longrightarrow> split_slash s = [s]"
  by (induction s) auto

lemma split_slash_components: "w \<in> set (split_slash s) \<Longrightarrow> CHR ''/'' \<notin> set w"
proof (induction s arbitrary: w)
  case Nil
  then show ?case by simp
next
  case (Cons c s)
  show ?case
  proof (cases "c = CHR ''/''")
    case True
    with Cons show ?thesis by auto
  next
    case False
    obtain v vs where sp: "split_slash s = v # vs"
      using split_slash_not_Nil [of s] by (cases "split_slash s") auto
    with Cons.IH have "CHR ''/'' \<notin> set v" "\<And>u. u \<in> set vs \<Longrightarrow> CHR ''/'' \<notin> set u" by auto
    with Cons.prems False sp show ?thesis by auto
  qed
qed

lemma path_name_no_slash: "CHR ''/'' \<notin> set (path_name s)"
proof (cases "rev (filter (\<lambda>w. w \<noteq> [] \<and> w \<noteq> ''.'') (split_slash s))")
  case Nil
  then show ?thesis by (simp add: path_name_def)
next
  case (Cons n ns)
  then have "n \<in> set (rev (filter (\<lambda>w. w \<noteq> [] \<and> w \<noteq> ''.'') (split_slash s)))" by simp
  then have "n \<in> set (split_slash s)" by simp
  then have "CHR ''/'' \<notin> set n" by (rule split_slash_components)
  with Cons show ?thesis by (simp add: path_name_def)
qed

lemma path_name_id: "CHR ''/'' \<notin> set n \<Longrightarrow> n \<noteq> ''.'' \<Longrightarrow> path_name n = n"
  by (cases "n = []") (simp_all add: path_name_def split_slash_no_slash)

lemma stem_suffix_join: "path_stem n @ path_suffix n = n"
  by (simp add: path_stem_def path_suffix_def)

lemma occurs_at_dot: "occurs_at ''.'' s i \<longleftrightarrow> i < length s \<and> s ! i = CHR ''.''"
proof
  assume o: "occurs_at ''.'' s i"
  then have "s ! i = CHR ''.''" by (rule occurs_at_head)
  with o show "i < length s \<and> s ! i = CHR ''.''" by (simp add: occurs_at_def)
next
  assume a: "i < length s \<and> s ! i = CHR ''.''"
  then have "take 1 (drop i s) = [s ! i]"
    by (metis Cons_nth_drop_Suc One_nat_def take0 take_Suc_Cons)
  with a show "occurs_at ''.'' s i" by (simp add: occurs_at_def)
qed

lemma path_suffix_is_ext:
  assumes "has_suffix n"
  shows "is_ext (path_suffix n)"
proof -
  let ?r = "rfind n ''.''"
  from assms have r: "0 < ?r" "?r < int (length n) - 1" by (simp_all add: has_suffix_def Let_def)
  then have "occurs_at ''.'' n (nat ?r)" by (intro rfind_occurs_at) simp
  then have dot: "n ! nat ?r = CHR ''.''" by (simp add: occurs_at_dot)
  from r have lt: "Suc (nat ?r) < length n" by simp
  then have d: "drop (nat ?r) n = n ! nat ?r # drop (Suc (nat ?r)) n"
    by (simp add: Cons_nth_drop_Suc)
  have nodot: "CHR ''.'' \<notin> set (drop (Suc (nat ?r)) n)"
  proof
    assume "CHR ''.'' \<in> set (drop (Suc (nat ?r)) n)"
    then obtain k where k: "k < length (drop (Suc (nat ?r)) n)" "drop (Suc (nat ?r)) n ! k = CHR ''.''"
      by (auto simp: in_set_conv_nth)
    then have "occurs_at ''.'' n (Suc (nat ?r) + k)" by (simp add: occurs_at_dot)
    then have "int (Suc (nat ?r) + k) \<le> ?r" by (rule rfind_is_last)
    moreover from r have "int (nat ?r) = ?r" by simp
    ultimately show False by linarith
  qed
  from lt have "drop (Suc (nat ?r)) n \<noteq> []" by simp
  with assms d dot nodot show ?thesis by (simp add: is_ext_def path_suffix_def)
qed

lemma rfind_stem_ext:
  assumes "is_ext e"
  shows "rfind (st @ e) ''.'' = int (length st)"
proof (rule rfind_eqI)
  from assms obtain e' where e: "e = CHR ''.'' # e'" "e' \<noteq> []" "CHR ''.'' \<notin> set e'"
    by (auto simp: is_ext_def split: list.splits)
  show "occurs_at ''.'' (st @ e) (length st)" using e by (simp add: occurs_at_dot)
  fix j
  assume "occurs_at ''.'' (st @ e) j"
  then have j: "j < length (st @ e)" "(st @ e) ! j = CHR ''.''" by (simp_all add: occurs_at_dot)
  show "j \<le> length st"
  proof (rule ccontr)
    assume "\<not> j \<le> length st"
    then obtain k where k: "j = length st + Suc k" by (metis add_Suc_right less_imp_Suc_add not_le)
    with j e have "k < length e'" "e' ! k = CHR ''.''" by (simp_all add: nth_append)
    with e(3) show False by (metis nth_mem)
  qed
qed

lemma split_stem_ext:
  assumes "st \<noteq> []" and "is_ext e"
  shows "has_suffix (st @ e)" and "path_stem (st @ e) = st" and "path_suffix (st @ e) = e"
proof -
  from assms(2) have "2 \<le> length e" by (auto simp: is_ext_def Suc_le_eq split: list.splits)
  with assms(1) show h: "has_suffix (st @ e)"
    by (simp add: has_suffix_def rfind_stem_ext [OF assms(2)])
  then show "path_stem (st @ e) = st" by (simp add: path_stem_def rfind_stem_ext [OF assms(2)])
  from h show "path_suffix (st @ e) = e" by (simp add: path_suffix_def rfind_stem_ext [OF assms(2)])
qed

lemma set_strip_subset: "set (strip s) \<subseteq> set s"
proof -
  have "set (strip s) \<subseteq> set (dropWhile isspace s)" 
    unfolding strip_def using set_dropWhileD by fastforce
  also have "\<dots> \<subseteq> set s" using set_dropWhileD by fastforce
  finally show ?thesis .
qed

lemma set_remove_pattern_subset: "set (remove_pattern p s) \<subseteq> set s"
proof (cases "search p s")
  case None
  then show ?thesis by (simp add: remove_pattern_def)
next
  case (Some ab)
  obtain a b where "ab = (a, b)" by (cases ab)
  with Some have "remove_pattern p s = strip (take a s @ drop b s)" by (simp add: remove_pattern_def)
  moreover have "set (take a s @ drop b s) \<subseteq> set s"
    using set_take_subset [of a s] set_drop_subset [of b s] by auto
  ultimately show ?thesis using set_strip_subset [of "take a s @ drop b s"] by auto
qed

lemma set_remove_copy_subset: "set (remove_copy s) \<subseteq> set s"
proof -
  have "set (strip (take k s)) \<subseteq> set s" for k
    using set_strip_subset [of "take k s"] set_take_subset [of k s] by auto
  then show ?thesis by (simp add: remove_copy_def Let_def)
qed

lemma set_clean_pass_subset: "set (clean_pass p dc s) \<subseteq> set s"
  using set_remove_pattern_subset [of p s] set_remove_copy_subset [of "remove_pattern p s"]
  by (auto simp: clean_pass_def Let_def)

lemma set_clean_loop_subset: "set (clean_loop p dc s) \<subseteq> set s"
proof (induction p dc s rule: clean_loop.induct)
  case (1 p dc s)
  show ?case
  proof (cases "clean_pass p dc s = s")
    case True
    then show ?thesis by (simp add: clean_loop_unfold [of p dc s])
  next
    case False
    then have "set (clean_loop p dc (clean_pass p dc s)) \<subseteq> set (clean_pass p dc s)"
      by (intro "1.IH") simp_all
    with set_clean_pass_subset [of p dc s] False show ?thesis
      by (auto simp: clean_loop_unfold [of p dc s])
  qed
qed

lemmas eval_defs =
  clean_filename_def clean_loop_unfold loop_iterations_unfold search_default clean_pass_def
  remove_pattern_def remove_copy_def match_here_def char_of_eq_iff path_name_def path_stem_def
  path_suffix_def has_suffix_def strip_def lower_def lower_char_def isspace_def isdigit_def

lemma clean_filename_split:
  "clean_filename p dc filename =
     clean_loop p dc (path_stem (path_name filename)) @ path_suffix (path_name filename)"
  by (simp add: clean_filename_def Let_def)

lemma clean_filename_stem_ext:
  assumes "stem \<noteq> []" and "is_ext ext" and "CHR ''/'' \<notin> set (stem @ ext)"
  shows "clean_filename p dc (stem @ ext) = clean_loop p dc stem @ ext"
proof -
  from assms(2) have "2 \<le> length ext" by (auto simp: is_ext_def Suc_le_eq split: list.splits)
  then have "length (stem @ ext) \<noteq> length ''.''" by simp
  then have "stem @ ext \<noteq> ''.''" by metis
  with assms(3) have "path_name (stem @ ext) = stem @ ext" by (intro path_name_id)
  with split_stem_ext [OF assms(1,2)] show ?thesis by (simp add: clean_filename_split)
qed

lemma clean_filename_idem:
  assumes "has_suffix (path_name filename)"
    and "clean_loop p dc (path_stem (path_name filename)) \<noteq> []"
  shows "clean_filename p dc (clean_filename p dc filename) = clean_filename p dc filename"
proof -
  let ?n = "path_name filename"
  let ?st = "clean_loop p dc (path_stem ?n)" and ?e = "path_suffix ?n"
  have ext: "is_ext ?e" using assms(1) by (rule path_suffix_is_ext)
  have "set ?st \<subseteq> set (path_stem ?n)" by (rule set_clean_loop_subset)
  moreover have "set (path_stem ?n) \<subseteq> set ?n"
    by (auto simp: path_stem_def dest: in_set_takeD)
  moreover have "set ?e \<subseteq> set ?n"
    by (auto simp: path_suffix_def dest: in_set_dropD)
  ultimately have "CHR ''/'' \<notin> set (?st @ ?e)" using path_name_no_slash [of filename] by auto
  with assms(2) ext have "clean_filename p dc (?st @ ?e) = clean_loop p dc ?st @ ?e"
    by (intro clean_filename_stem_ext)
  then show ?thesis by (simp add: clean_filename_split [of p dc filename] clean_loop_idem)
qed

lemma clean_filename_unchanged:
  assumes "path_name filename = filename"
    and "search p (path_stem filename) = None"
    and "detect_copy \<Longrightarrow> \<forall>i. \<not> copy_marker_at (path_stem filename) i"
  shows "clean_filename p detect_copy filename = filename"
proof -
  let ?st = "path_stem filename"
  from assms(2) have rp: "remove_pattern p ?st = ?st" by (simp add: remove_pattern_def)
  have "clean_pass p detect_copy ?st = ?st"
  proof (cases detect_copy)
    case True
    with assms(3) have "remove_copy ?st = ?st" by (intro remove_copy_no_marker) simp
    with True rp show ?thesis by (simp add: clean_pass_def)
  next
    case False
    with rp show ?thesis by (simp add: clean_pass_def)
  qed
  then have "clean_loop p detect_copy ?st = ?st" by (rule clean_loop_unchanged)
  with assms(1) show ?thesis by (simp add: clean_filename_split stem_suffix_join)
qed

lemma copy_marker_at_bound: "copy_marker_at s i \<Longrightarrow> i + 5 \<le> length s"
  unfolding copy_marker_at_def marker_at_def by (elim disjE conjE) simp_all

subsection \<open>The examples of the specification, evaluated\<close>

lemma clean_report_1_pdf:
  "clean_filename default_pattern False ''report (1).pdf'' = ''report.pdf''"
  by (simp add: eval_defs)

lemma clean_photo_dash_copy_jpg:
  "clean_filename default_pattern True ''photo - copy.jpg'' = ''photo.jpg''"
  by (simp add: eval_defs)

lemma clean_photo_copy_jpg:
  "clean_filename default_pattern True ''photo.copy.jpg'' = ''photo.jpg''"
  by (simp add: eval_defs)

lemma clean_file_copy:
  "clean_filename default_pattern True ''file.copy'' = ''file.copy''"
  by (simp add: eval_defs)

lemma clean_a_copy_copy_txt:
  "clean_filename default_pattern True ''a - copy.copy.txt'' = ''a.txt''"
  by (simp add: eval_defs)

lemma clean_a_txt:
  "clean_filename default_pattern True ''a.txt'' = ''a.txt''"
  by (simp add: eval_defs)

lemma clean_1_copy:
  "clean_filename default_pattern True ''(1).copy'' = ''.copy''"
  by (simp add: eval_defs)

lemma clean_dot_copy:
  "clean_filename default_pattern True ''.copy'' = []"
  by (simp add: eval_defs)

lemma warns_1_copy: "clean_filename_warns default_pattern True ''(1).copy''"
  by (simp add: clean_filename_warns_def eval_defs)

lemma iterations_a_copy_copy:
  "loop_iterations default_pattern True ''a - copy.copy'' = 3"
  by (simp add: eval_defs)



lemma no_copy_marker_notes: "\<not> copy_marker_at ''notes'' i"
proof
  assume a: "copy_marker_at ''notes'' i"
  then have "i + 5 \<le> length ''notes''" by (rule copy_marker_at_bound)
  then have "i = 0" by simp
  with a show False
    by (simp add: copy_marker_at_def marker_at_def lower_def lower_char_def char_of_eq_iff)
qed

lemma search_notes: "search default_pattern ''notes'' = None"
  by (simp add: eval_defs)

lemma name_notes_txt: "path_name ''notes.txt'' = ''notes.txt'' \<and> path_stem ''notes.txt'' = ''notes''"
  by (simp add: eval_defs)

section \<open>Facts about the duplicate remover\<close>

subsection \<open>The scan lists every file once\<close>

lemma distinct_immediate_files:
  "distinct (map fst es) \<Longrightarrow> distinct (immediate_files d es)"
proof -
  assume d: "distinct (map fst es)"
  then have "distinct (map fst (filter (\<lambda>e. is_file (snd e)) es))"
    by (rule distinct_map_filter)
  moreover have "inj_on (\<lambda>name. d @ [name]) (set (map fst (filter (\<lambda>e. is_file (snd e)) es)))"
    by (simp add: inj_on_def)
  ultimately have "distinct (map (\<lambda>name. d @ [name]) (map fst (filter (\<lambda>e. is_file (snd e)) es)))"
    by (simp only: distinct_map)
  moreover have "immediate_files d es =
      map (\<lambda>name. d @ [name]) (map fst (filter (\<lambda>e. is_file (snd e)) es))"
    by (simp add: immediate_files_def comp_def)
  ultimately show ?thesis by simp
qed

lemma immediate_files_length:
  "p \<in> set (immediate_files d es) \<Longrightarrow> length p = Suc (length d)"
  by (auto simp: immediate_files_def)

lemma rglob_below:
  "p \<in> set (rglob d n) \<Longrightarrow> strict_prefix d p"
  "p \<in> set (rglob_sub d es) \<Longrightarrow> \<exists>name \<in> fst ` set es. strict_prefix (d @ [name]) p"
proof (induction d n and d es arbitrary: p and p rule: rglob_rglob_sub.induct)
  case (1 d s u)
  then show ?case by simp
next
  case (2 d l r t es)
  from "2.prems" have l: "l = None" by (auto split: if_splits)
  with "2.prems" consider "p \<in> set (immediate_files d es)" | "p \<in> set (rglob_sub d es)"
    by auto
  then show ?case
  proof cases
    case 1
    then show ?thesis by (auto simp: immediate_files_def strict_prefix_def)
  next
    case 2
    with "2.IH" l obtain name where "strict_prefix (d @ [name]) p" by blast
    then show ?thesis by (auto simp: strict_prefix_def dest: append_prefixD)
  qed
next
  case (3 d)
  then show ?case by simp
next
  case (4 d name n es)
  from "4.prems" consider "p \<in> set (rglob (d @ [name]) n)" | "p \<in> set (rglob_sub d es)"
    by auto
  then show ?case
  proof cases
    case 1
    then have "strict_prefix (d @ [name]) p" by (rule "4.IH"(1))
    then show ?thesis by auto
  next
    case 2
    then obtain name' where "name' \<in> fst ` set es" "strict_prefix (d @ [name']) p"
      using "4.IH"(2) by blast
    then show ?thesis by auto
  qed
qed

lemma distinct_rglob:
  "wf_node n \<Longrightarrow> distinct (rglob d n)"
  "distinct (map fst es) \<Longrightarrow> wf_entries es \<Longrightarrow> distinct (rglob_sub d es)"
proof (induction d n and d es rule: rglob_rglob_sub.induct)
  case (1 d s u)
  show ?case by simp
next
  case (2 d l r t es)
  from "2.prems" have w: "distinct (map fst es)" "wf_entries es" by simp_all
  show ?case
  proof (cases "l = None")
    case False
    then show ?thesis by simp
  next
    case True
    with "2.IH" w have 1: "distinct (rglob_sub d es)" by simp
    from w(1) have 2: "distinct (immediate_files d es)" by (rule distinct_immediate_files)
    have 3: "set (immediate_files d es) \<inter> set (rglob_sub d es) = {}"
    proof (rule ccontr)
      assume "set (immediate_files d es) \<inter> set (rglob_sub d es) \<noteq> {}"
      then obtain p where p: "p \<in> set (immediate_files d es)" "p \<in> set (rglob_sub d es)"
        by blast
      from p(1) have "length p = Suc (length d)" by (rule immediate_files_length)
      moreover from p(2) obtain name where "strict_prefix (d @ [name]) p"
        using rglob_below(2) by blast
      then have "Suc (length d) < length p" by (auto simp: strict_prefix_def prefix_def)
      ultimately show False by simp
    qed
    from 1 2 3 True show ?thesis by simp
  qed
next
  case (3 d)
  show ?case by simp
next
  case (4 d name n es)
  from "4.prems" have w: "wf_node n" "wf_entries es" "distinct (map fst es)" "name \<notin> fst ` set es"
    by simp_all
  have "set (rglob (d @ [name]) n) \<inter> set (rglob_sub d es) = {}"
  proof (rule ccontr)
    assume "set (rglob (d @ [name]) n) \<inter> set (rglob_sub d es) \<noteq> {}"
    then obtain p where p: "p \<in> set (rglob (d @ [name]) n)" "p \<in> set (rglob_sub d es)"
      by blast
    from p(1) have 1: "strict_prefix (d @ [name]) p" by (rule rglob_below(1))
    from p(2) obtain name' where n': "name' \<in> fst ` set es" "strict_prefix (d @ [name']) p"
      using rglob_below(2) by blast
    from 1 n'(2) have "name = name'" by (auto simp: strict_prefix_def prefix_def)
    with n'(1) w(4) show False by simp
  qed
  with "4.IH" w show ?case by simp
qed

subsection \<open>Grouping\<close>

lemma group_of_add:
  "group_of (add_to_group k f gs) k' = (if k' = k then group_of gs k @ [f] else group_of gs k')"
  by (induction gs) (auto simp: group_of_def)

lemma keys_add: "set (map fst (add_to_group k f gs)) = insert k (set (map fst gs))"
proof (induction gs)
  case Nil
  show ?case by simp
next
  case (Cons g gs)
  obtain k' files where g: "g = (k', files)" by (cases g)
  show ?case
  proof (cases "k = k'")
    case True
    with g show ?thesis by auto
  next
    case False
    with g Cons show ?thesis by auto
  qed
qed

lemma distinct_add: "distinct (map fst gs) \<Longrightarrow> distinct (map fst (add_to_group k f gs))"
proof (induction gs)
  case Nil
  then show ?case by simp
next
  case (Cons g gs)
  obtain k' files where g: "g = (k', files)" by (cases g)
  with Cons show ?case using keys_add [of k f gs] by auto
qed

lemma nonempty_add:
  "\<forall>g \<in> set gs. snd g \<noteq> [] \<Longrightarrow> \<forall>g \<in> set (add_to_group k f gs). snd g \<noteq> []"
proof (induction gs)
  case Nil
  show ?case by simp
next
  case (Cons g gs)
  obtain k' files where g: "g = (k', files)" by (cases g)
  show ?case
  proof (cases "k = k'")
    case True
    with g Cons.prems show ?thesis by auto
  next
    case False
    with g Cons show ?thesis by auto
  qed
qed

lemma foldl_groups:
  "group_of (foldl (\<lambda>gs f. add_to_group (key f) f gs) gs all_files) k =
     group_of gs k @ filter (\<lambda>f. key f = k) all_files"
  by (induction all_files arbitrary: gs) (auto simp: group_of_add)

lemma foldl_distinct:
  "distinct (map fst gs) \<Longrightarrow>
   distinct (map fst (foldl (\<lambda>gs f. add_to_group (key f) f gs) gs all_files))"
  by (induction all_files arbitrary: gs) (auto simp: distinct_add)

lemma foldl_nonempty:
  "\<forall>g \<in> set gs. snd g \<noteq> [] \<Longrightarrow>
   \<forall>g \<in> set (foldl (\<lambda>gs f. add_to_group (key f) f gs) gs all_files). snd g \<noteq> []"
proof (induction all_files arbitrary: gs)
  case Nil
  then show ?case by simp
next
  case (Cons f fs)
  from Cons.prems have "\<forall>g \<in> set (add_to_group (key f) f gs). snd g \<noteq> []"
    by (rule nonempty_add)
  then show ?case using Cons.IH by simp
qed

lemma distinct_group_files: "distinct (map fst (group_files key all_files))"
  unfolding group_files_def by (rule foldl_distinct) simp

lemma group_files_member:
  "(k, g) \<in> set (group_files key all_files) \<longleftrightarrow>
     g = filter (\<lambda>f. key f = k) all_files \<and> g \<noteq> []"
proof
  assume m: "(k, g) \<in> set (group_files key all_files)"
  then have "map_of (group_files key all_files) k = Some g"
    using distinct_group_files by (simp add: map_of_eq_Some_iff)
  then have "group_of (group_files key all_files) k = g" by (simp add: group_of_def)
  then have g: "g = filter (\<lambda>f. key f = k) all_files"
    using foldl_groups [of key "[]" all_files k] by (simp add: group_files_def group_of_def)
  have "\<forall>g \<in> set (group_files key all_files). snd g \<noteq> []"
    unfolding group_files_def by (rule foldl_nonempty) simp
  with m have "g \<noteq> []" by auto
  with g show "g = filter (\<lambda>f. key f = k) all_files \<and> g \<noteq> []" by simp
next
  assume a: "g = filter (\<lambda>f. key f = k) all_files \<and> g \<noteq> []"
  have "group_of (group_files key all_files) k = g"
    using a foldl_groups [of key "[]" all_files k] by (simp add: group_files_def group_of_def)
  with a have "map_of (group_files key all_files) k = Some g"
    by (auto simp: group_of_def split: option.splits)
  then show "(k, g) \<in> set (group_files key all_files)" by (rule map_of_SomeD)
qed

subsection \<open>Metadata reads and the sorted group\<close>

lemma files_with_stat_eq:
  "files_with_stat stat_of files =
     map (\<lambda>f. (f, projr (stat_of f))) (filter (\<lambda>f. \<not> isl (stat_of f)) files)"
  by (induction files) (auto simp: files_with_stat_def split: sum.splits)

lemma stat_warnings_eq:
  "stat_warnings stat_of files =
     map (\<lambda>f. Stat_warning (projl (stat_of f)) f) (filter (\<lambda>f. isl (stat_of f)) files)"
  by (induction files) (auto simp: stat_warnings_def split: sum.splits)

lemma duplicates_in_group_eq:
  "duplicates_in_group stat_of files =
     map (\<lambda>f. (f, st_size (projr (stat_of f)))) (filter (\<lambda>f. \<not> isl (stat_of f)) (tl files))"
proof -
  have "concat (map (\<lambda>f. case stat_of f of Inr st \<Rightarrow> [(f, st_size st)] | Inl e \<Rightarrow> []) xs) =
     map (\<lambda>f. (f, st_size (projr (stat_of f)))) (filter (\<lambda>f. \<not> isl (stat_of f)) xs)" for xs
    by (induction xs) (auto split: sum.splits)
  then show ?thesis by (simp add: duplicates_in_group_def)
qed

lemma insort_key_map:
  "insort_key k (h x) (map h ys) = map h (insort_key (\<lambda>y. k (h y)) x ys)"
  by (induction ys) auto

lemma sort_key_map: "sort_key k (map h xs) = map h (sort_key (\<lambda>y. k (h y)) xs)"
  by (induction xs) (auto simp: insort_key_map)

lemma sorted_group_eq:
  "sorted_group stat_of files =
     (if length files > 1 \<and> length (readable stat_of files) > 1
      then Some (sort_key (ctime_of stat_of) (readable stat_of files)) else None)"
proof -
  have "map fst (sort_key (\<lambda>item. st_ctime (snd item))
          (map (\<lambda>f. (f, projr (stat_of f))) (readable stat_of files))) =
        sort_key (ctime_of stat_of) (readable stat_of files)"
    by (simp add: sort_key_map ctime_of_def [abs_def] comp_def)
  then show ?thesis
    by (simp add: sorted_group_def files_with_stat_eq readable_def Let_def)
qed

lemma groups_with_duplicates_member:
  "(k, s) \<in> set (groups_with_duplicates stat_of gs) \<longleftrightarrow>
     (\<exists>files. (k, files) \<in> set gs \<and> sorted_group stat_of files = Some s)"
  by (induction gs) (auto simp: groups_with_duplicates_def split: option.splits)

lemma groups_with_duplicates_keys:
  "set (map fst (groups_with_duplicates stat_of gs)) \<subseteq> set (map fst gs)"
proof
  fix k
  assume "k \<in> set (map fst (groups_with_duplicates stat_of gs))"
  then obtain s where "(k, s) \<in> set (groups_with_duplicates stat_of gs)" by auto
  then obtain files where "(k, files) \<in> set gs"
    by (auto simp: groups_with_duplicates_member)
  then show "k \<in> set (map fst gs)" by force
qed

lemma groups_with_duplicates_Cons:
  "groups_with_duplicates stat_of ((k, files) # gs) =
     (case sorted_group stat_of files of None \<Rightarrow> [] | Some s \<Rightarrow> [(k, s)]) @
     groups_with_duplicates stat_of gs"
  by (simp add: groups_with_duplicates_def)

lemma distinct_groups_with_duplicates:
  "distinct (map fst gs) \<Longrightarrow> distinct (map fst (groups_with_duplicates stat_of gs))"
proof (induction gs)
  case Nil
  show ?case by (simp add: groups_with_duplicates_def)
next
  case (Cons g gs)
  obtain k files where g: "g = (k, files)" by (cases g)
  with Cons.prems have "k \<notin> set (map fst gs)" by simp
  with groups_with_duplicates_keys [of stat_of gs]
  have "k \<notin> set (map fst (groups_with_duplicates stat_of gs))" by blast
  with Cons g show ?case by (auto simp: groups_with_duplicates_Cons split: option.splits)
qed

lemma collect_Cons:
  "collect_files_to_remove stat_of ((k, s) # gs) =
     duplicates_in_group stat_of s @ collect_files_to_remove stat_of gs"
  by (simp add: collect_files_to_remove_def)

lemma duplicates_in_group_subset:
  "item \<in> set (duplicates_in_group stat_of s) \<Longrightarrow> fst item \<in> set (tl s)"
  by (auto simp: duplicates_in_group_eq)

lemma collect_files_of_key:
  assumes "distinct (map fst gs)"
    and "\<And>k' s' f. (k', s') \<in> set gs \<Longrightarrow> f \<in> set s' \<Longrightarrow> key f = k'"
  shows "filter (\<lambda>item. key (fst item) = k) (collect_files_to_remove stat_of gs) =
     (case map_of gs k of None \<Rightarrow> [] | Some s \<Rightarrow> duplicates_in_group stat_of s)"
  using assms
proof (induction gs)
  case Nil
  show ?case by (simp add: collect_files_to_remove_def)
next
  case (Cons g gs)
  obtain k' s' where g: "g = (k', s')" by (cases g)
  have keys: "key (fst item) = k'" if "item \<in> set (duplicates_in_group stat_of s')" for item
  proof -
    from that have "fst item \<in> set (tl s')" by (rule duplicates_in_group_subset)
    then have "fst item \<in> set s'" by (cases s') auto
    then show ?thesis using Cons.prems(2) [of k' s'] g by simp
  qed
  have IH: "filter (\<lambda>item. key (fst item) = k) (collect_files_to_remove stat_of gs) =
     (case map_of gs k of None \<Rightarrow> [] | Some s \<Rightarrow> duplicates_in_group stat_of s)"
    using Cons.prems by (intro Cons.IH) auto
  show ?case
  proof (cases "k' = k")
    case True
    with Cons.prems(1) g have "k \<notin> fst ` set gs" by auto
    then have "map_of gs k = None" by (simp add: map_of_eq_None_iff)
    with IH have rest: "filter (\<lambda>item. key (fst item) = k) (collect_files_to_remove stat_of gs) = []"
      by simp
    from keys True have "filter (\<lambda>item. key (fst item) = k) (duplicates_in_group stat_of s') =
      duplicates_in_group stat_of s'" by (simp add: filter_id_conv)
    with rest g True show ?thesis by (simp add: collect_Cons)
  next
    case False
    with keys have "filter (\<lambda>item. key (fst item) = k) (duplicates_in_group stat_of s') = []"
      by (auto simp: filter_empty_conv)
    with IH g False show ?thesis by (simp add: collect_Cons)
  qed
qed

lemma sorted_group_set:
  "sorted_group stat_of files = Some s \<Longrightarrow> set s = set (readable stat_of files)"
  by (auto simp: sorted_group_eq split: if_splits)

lemma map_of_groups_with_duplicates:
  "map_of (groups_with_duplicates stat_of (group_files key all_files)) k =
     sorted_group stat_of (filter (\<lambda>f. key f = k) all_files)"
proof -
  let ?gs = "group_files key all_files" and ?g = "filter (\<lambda>f. key f = k) all_files"
  have d: "distinct (map fst (groups_with_duplicates stat_of ?gs))"
    using distinct_group_files by (rule distinct_groups_with_duplicates)
  show ?thesis
  proof (cases "sorted_group stat_of ?g")
    case None
    have "\<nexists>s. (k, s) \<in> set (groups_with_duplicates stat_of ?gs)"
    proof
      assume "\<exists>s. (k, s) \<in> set (groups_with_duplicates stat_of ?gs)"
      then obtain s files where "(k, files) \<in> set ?gs" "sorted_group stat_of files = Some s"
        by (auto simp: groups_with_duplicates_member)
      with None show False by (simp add: group_files_member)
    qed
    then have "map_of (groups_with_duplicates stat_of ?gs) k = None"
      by (metis map_of_SomeD not_Some_eq)
    with None show ?thesis by simp
  next
    case (Some s)
    then have "?g \<noteq> []" by (auto simp: sorted_group_eq split: if_splits)
    then have "(k, ?g) \<in> set ?gs" by (simp add: group_files_member)
    with Some have "(k, s) \<in> set (groups_with_duplicates stat_of ?gs)"
      by (auto simp: groups_with_duplicates_member)
    with d have "map_of (groups_with_duplicates stat_of ?gs) k = Some s"
      by (simp add: map_of_eq_Some_iff)
    with Some show ?thesis by simp
  qed
qed

lemma group_candidates:
  "filter (\<lambda>item. key (fst item) = k) (deletion_candidates key stat_of all_files) =
     (case sorted_group stat_of (filter (\<lambda>f. key f = k) all_files) of
        None \<Rightarrow> [] | Some s \<Rightarrow> duplicates_in_group stat_of s)"
proof -
  let ?gs = "group_files key all_files"
  have d: "distinct (map fst (groups_with_duplicates stat_of ?gs))"
    using distinct_group_files by (rule distinct_groups_with_duplicates)
  have keys: "key f = k'" if "(k', s') \<in> set (groups_with_duplicates stat_of ?gs)" "f \<in> set s'"
    for k' s' f
  proof -
    from that(1) obtain files where files: "(k', files) \<in> set ?gs" "sorted_group stat_of files = Some s'"
      by (auto simp: groups_with_duplicates_member)
    from files(2) that(2) have "f \<in> set files" by (auto simp: sorted_group_set readable_def)
    with files(1) show ?thesis by (simp add: group_files_member)
  qed
  from d keys have "filter (\<lambda>item. key (fst item) = k)
      (collect_files_to_remove stat_of (groups_with_duplicates stat_of ?gs)) =
     (case map_of (groups_with_duplicates stat_of ?gs) k of
        None \<Rightarrow> [] | Some s \<Rightarrow> duplicates_in_group stat_of s)"
    by (rule collect_files_of_key)
  then show ?thesis by (simp add: deletion_candidates_def map_of_groups_with_duplicates)
qed

lemma occurrences_in_candidates:
  "filter (\<lambda>item. fst item = f) (deletion_candidates key stat_of all_files) =
     (case sorted_group stat_of (filter (\<lambda>f'. key f' = key f) all_files) of
        None \<Rightarrow> [] | Some s \<Rightarrow> filter (\<lambda>item. fst item = f) (duplicates_in_group stat_of s))"
proof -
  have "filter (\<lambda>item. fst item = f) (deletion_candidates key stat_of all_files) =
    filter (\<lambda>item. fst item = f)
      (filter (\<lambda>item. key (fst item) = key f) (deletion_candidates key stat_of all_files))"
    by (auto simp: filter_filter intro: filter_cong)
  then show ?thesis by (simp add: group_candidates split: option.splits)
qed

lemma hd_sort_key_min:
  assumes "xs \<noteq> []" and "x \<in> set xs"
  shows "h (hd (sort_key h xs)) \<le> h x"
proof -
  from assms(1) have ne: "sort_key h xs \<noteq> []" by (metis length_0_conv length_sort)
  then obtain y ys where s: "sort_key h xs = y # ys" by (cases "sort_key h xs") auto
  have "sorted (map h (sort_key h xs))" by (rule sorted_sort_key)
  with s have "\<forall>z \<in> set ys. h y \<le> h z" by simp
  moreover from assms(2) have "x \<in> set (sort_key h xs)" by simp
  ultimately show ?thesis using s by auto
qed

lemma hd_sort_key_first_min:
  assumes "xs \<noteq> []"
  shows "hd (sort_key h xs) = hd (filter (\<lambda>x. h x = h (hd (sort_key h xs))) xs)"
proof -
  let ?s = "sort_key h xs" and ?m = "h (hd (sort_key h xs))"
  from assms have ne: "?s \<noteq> []" by (metis length_0_conv length_sort)
  then obtain y ys where s: "?s = y # ys" by (cases ?s) auto
  have "filter (\<lambda>x. h x = ?m) ?s = filter (\<lambda>x. h x = ?m) xs" by (rule sort_key_stable)
  moreover from s have "hd (filter (\<lambda>x. h x = ?m) ?s) = y" by simp
  ultimately show ?thesis using s by simp
qed

lemma length_filter_distinct:
  "distinct xs \<Longrightarrow> x \<in> set xs \<Longrightarrow> length (filter (\<lambda>y. y = x) xs) = 1"
  by (induction xs) (auto simp: filter_empty_conv)

lemma filter_fst_map:
  "filter (\<lambda>item. fst item = f) (map (\<lambda>x. (x, h x)) xs) = map (\<lambda>x. (x, h x)) (filter (\<lambda>y. y = f) xs)"
  by (induction xs) auto

lemma occurrences_in_plan:
  "length (filter (\<lambda>item. fst item = f) (plan p detect_copy fs all_files)) =
   length (filter (\<lambda>item. fst item = f)
     (deletion_candidates (group_key p detect_copy) (stat fs) all_files))"
  by (simp add: plan_def filter_sort)

lemma plan_set:
  "set (plan p detect_copy fs all_files) =
   set (deletion_candidates (group_key p detect_copy) (stat fs) all_files)"
  by (simp add: plan_def)

lemma readable_all: "\<forall>f \<in> set g. \<not> isl (stat_of f) \<Longrightarrow> readable stat_of g = g"
  by (simp add: readable_def)

lemma group_occurrences:
  assumes d: "distinct all_files"
    and g: "g = filter (\<lambda>f. key f = k) all_files"
    and ok: "\<forall>f \<in> set g. \<not> isl (stat_of f)"
    and s: "s = sort_key (ctime_of stat_of) g"
    and f: "f \<in> set g"
  shows "length (filter (\<lambda>item. fst item = f) (deletion_candidates key stat_of all_files)) =
     (if f = hd s then 0 else 1)"
proof -
  from f g have kf: "key f = k" by simp
  from d g have dg: "distinct g" by simp
  from f have ne: "g \<noteq> []" by auto
  then have sne: "s \<noteq> []" using s by (metis length_0_conv length_sort)
  then have sc: "s = hd s # tl s" by simp
  from dg s have "distinct s" by simp
  with sc have ds: "hd s \<notin> set (tl s)" "distinct (tl s)" by (metis distinct.simps(2))+
  have occ: "filter (\<lambda>item. fst item = f) (deletion_candidates key stat_of all_files) =
     (case sorted_group stat_of g of
        None \<Rightarrow> [] | Some s' \<Rightarrow> filter (\<lambda>item. fst item = f) (duplicates_in_group stat_of s'))"
    using occurrences_in_candidates [of f key stat_of all_files] kf g by simp
  show ?thesis
  proof (cases "1 < length g")
    case False
    with ne have "length g = 1" by (cases g) auto
    then obtain x where "g = [x]" by (cases g) auto
    with s f have "f = hd s" by simp
    moreover from False have "sorted_group stat_of g = None" by (simp add: sorted_group_eq)
    ultimately show ?thesis using occ by simp
  next
    case True
    with ok s have sg: "sorted_group stat_of g = Some s"
      by (simp add: sorted_group_eq readable_all)
    have "set (tl s) \<subseteq> set g" using s sc by (metis set_sort set_subset_Cons)
    with ok have "filter (\<lambda>f. \<not> isl (stat_of f)) (tl s) = tl s" by (auto simp: filter_id_conv)
    then have "duplicates_in_group stat_of s = map (\<lambda>x. (x, st_size (projr (stat_of x)))) (tl s)"
      by (simp add: duplicates_in_group_eq)
    with occ sg have len: "length (filter (\<lambda>item. fst item = f)
        (deletion_candidates key stat_of all_files)) = length (filter (\<lambda>y. y = f) (tl s))"
      by (simp add: filter_fst_map)
    show ?thesis
    proof (cases "f = hd s")
      case True
      with ds(1) have "filter (\<lambda>y. y = f) (tl s) = []" by (auto simp: filter_empty_conv)
      with len True show ?thesis by simp
    next
      case False
      from f s have "f \<in> set s" by simp
      with sc False have "f \<in> set (tl s)" by (metis set_ConsD)
      with ds(2) have "length (filter (\<lambda>y. y = f) (tl s)) = 1" by (rule length_filter_distinct)
      with len False show ?thesis by simp
    qed
  qed
qed

lemma group_warnings_subset:
  assumes "(k, g) \<in> set gs" and "1 < length g"
  shows "set (stat_warnings stat_of g) \<subseteq> set (group_warnings stat_of gs)"
  using assms by (fastforce simp: group_warnings_def)

lemma unreadable_group_not_marked:
  assumes g: "g = filter (\<lambda>f. key f = k) all_files"
    and few: "length (readable stat_of g) \<le> 1"
    and f: "f \<in> set g"
  shows "f \<notin> fst ` set (deletion_candidates key stat_of all_files)"
proof
  assume "f \<in> fst ` set (deletion_candidates key stat_of all_files)"
  then obtain item where item: "item \<in> set (deletion_candidates key stat_of all_files)" "fst item = f"
    by auto
  from f g have "key f = k" by simp
  with item have "item \<in> set (filter (\<lambda>item. key (fst item) = k)
      (deletion_candidates key stat_of all_files))" by simp
  moreover from few have "sorted_group stat_of g = None" by (simp add: sorted_group_eq)
  ultimately show False using group_candidates [of key k stat_of all_files] g by simp
qed

subsection \<open>Runs that stop before the deletion loop\<close>

lemma process_groups_dry_run:
  "fs_after (process_groups fs True p auto_confirm detect_copy answer all_files) = fs \<and>
   deleted (process_groups fs True p auto_confirm detect_copy answer all_files) = []"
  by (simp add: process_groups_def Let_def)

lemma process_groups_declined:
  assumes "\<not> confirmed answer"
  shows "fs_after (process_groups fs dry_run p False detect_copy answer all_files) = fs \<and>
     deleted (process_groups fs dry_run p False detect_copy answer all_files) = []"
  using assms by (simp add: process_groups_def Let_def)

lemma process_groups_declined_outcome:
  assumes "\<not> confirmed answer"
  shows "outcome (process_groups fs dry_run p False detect_copy answer all_files) \<noteq> Finished n m"
  using assms by (simp add: process_groups_def Let_def)

lemma find_dry_run:
  "fs_after (find_and_remove_duplicates fs directory True pattern auto_confirm detect_copy
      recursive answer) = fs \<and>
   deleted (find_and_remove_duplicates fs directory True pattern auto_confirm detect_copy
      recursive answer) = []"
  by (simp add: find_and_remove_duplicates_def stopped_def process_groups_dry_run
      split: option.splits node.splits)

lemma find_declined:
  assumes "\<not> confirmed answer"
  shows "fs_after (find_and_remove_duplicates fs directory dry_run pattern False detect_copy
      recursive answer) = fs \<and>
   deleted (find_and_remove_duplicates fs directory dry_run pattern False detect_copy
      recursive answer) = [] \<and>
   outcome (find_and_remove_duplicates fs directory dry_run pattern False detect_copy
      recursive answer) \<noteq> Finished n m"
  using assms
  by (simp add: find_and_remove_duplicates_def stopped_def process_groups_declined
      process_groups_declined_outcome split: option.splits node.splits)

subsection \<open>Runs on the example directory\<close>

lemma example_scan: "rglob [''d''] (the (lookup example_fs [''d''])) = example_files"
  by (simp add: example_fs_def example_files_def immediate_files_def meta_def)

lemma example_keys:
  "map (group_key default_pattern False) example_files =
     [''/d/a.txt'', ''/d/a.txt'', ''/d/a.txt'', ''/d/a.txt'', ''/d/b.txt'']"
  by (simp add: example_files_def group_key_def name_of_def path_div_def path_str_def
      joinpath_def eval_defs)

lemma example_stat:
  "stat example_fs [''d'', ''a.txt''] = Inr \<lparr>st_ctime = 5, st_size = 10\<rparr>"
  "stat example_fs [''d'', ''a (1).txt''] = Inr \<lparr>st_ctime = 3, st_size = 20\<rparr>"
  "stat example_fs [''d'', ''a (2).txt''] = Inr \<lparr>st_ctime = 3, st_size = 30\<rparr>"
  "stat example_fs [''d'', ''a (3).txt''] = Inl PermissionError"
  "stat example_fs [''d'', ''b.txt''] = Inr \<lparr>st_ctime = 1, st_size = 40\<rparr>"
  by (simp_all add: example_fs_def stat_def meta_def)

lemma example_groups:
  "group_files (group_key default_pattern False) example_files =
     [(''/d/a.txt'', [[''d'', ''a.txt''], [''d'', ''a (1).txt''], [''d'', ''a (2).txt''],
        [''d'', ''a (3).txt'']]),
      (''/d/b.txt'', [[''d'', ''b.txt'']])]"
  using example_keys by (simp add: group_files_def example_files_def)

lemma example_sorted:
  "groups_with_duplicates (stat example_fs)
     (group_files (group_key default_pattern False) example_files) =
     [(''/d/a.txt'', [[''d'', ''a (1).txt''], [''d'', ''a (2).txt''], [''d'', ''a.txt'']])]"
  by (simp add: example_groups groups_with_duplicates_def sorted_group_def files_with_stat_def
      example_stat)

lemma example_warnings:
  "group_warnings (stat example_fs)
     (group_files (group_key default_pattern False) example_files) =
     [Stat_warning PermissionError [''d'', ''a (3).txt'']]"
  by (simp add: example_groups group_warnings_def stat_warnings_def example_stat)

lemma example_plan:
  "plan default_pattern False example_fs example_files =
     [([''d'', ''a (2).txt''], 30), ([''d'', ''a.txt''], 10)]"
  by (simp add: plan_def deletion_candidates_def example_sorted collect_files_to_remove_def
      duplicates_in_group_def example_stat path_str_def joinpath_def
      lower_def lower_char_def char_of_eq_iff
      less_eq_char_def less_char_def list_le_def)

lemma example_key:
  "group_key default_pattern False [''d'', ''a.txt''] = ''/d/a.txt''"
  "group_key default_pattern False [''d'', ''a (1).txt''] = ''/d/a.txt''"
  "group_key default_pattern False [''d'', ''a (2).txt''] = ''/d/a.txt''"
  "group_key default_pattern False [''d'', ''a (3).txt''] = ''/d/a.txt''"
  "group_key default_pattern False [''d'', ''b.txt''] = ''/d/b.txt''"
  using example_keys by (simp_all add: example_files_def)

lemma example_lookup:
  "lookup example_fs [''d''] = Some (the (lookup example_fs [''d'']))"
  "\<exists>es. the (lookup example_fs [''d'']) = Dir None None None es"
  by (simp_all add: example_fs_def)

lemma example_kept:
  "map (\<lambda>g. hd (snd g))
     (groups_with_duplicates (stat example_fs)
        (group_files (group_key default_pattern False) example_files)) =
   [[''d'', ''a (1).txt'']]"
  by (simp add: example_sorted)

lemma example_dry_run:
  "find_and_remove_duplicates example_fs [''d''] True (Some default_pattern) False False True None =
     \<lparr>fs_after = example_fs, outcome = Dry_run_finished,
      warnings = [Stat_warning PermissionError [''d'', ''a (3).txt'']],
      kept = [[''d'', ''a (1).txt'']],
      files_to_remove = [([''d'', ''a (2).txt''], 30), ([''d'', ''a.txt''], 10)],
      deleted = []\<rparr>"
proof -
  obtain es where es: "lookup example_fs [''d''] = Some (Dir None None None es)"
    using example_lookup by metis
  then have "rglob [''d''] (Dir None None None es) = example_files"
    using example_scan by simp
  with es show ?thesis
    by (simp add: find_and_remove_duplicates_def process_groups_def example_sorted
        example_warnings example_plan Let_def)
qed

lemma example_delete:
  "delete_files [([''d'', ''a (2).txt''], 30), ([''d'', ''a.txt''], 10)] (example_fs, [], 0) =
     (Dir None None None
        [(''d'', Dir None None None
           [(''a (1).txt'', meta 3 20),
            (''a (3).txt'', File (Inl PermissionError) None),
            (''b.txt'', meta 1 40)])],
      [[''d'', ''a (2).txt''], [''d'', ''a.txt'']], 40)"
  by (simp add: example_fs_def meta_def)

lemma example_live_run:
  "find_and_remove_duplicates example_fs [''d''] False (Some default_pattern) False False True
     (Some '' Yes '') =
     \<lparr>fs_after = Dir None None None
        [(''d'', Dir None None None
           [(''a (1).txt'', meta 3 20),
            (''a (3).txt'', File (Inl PermissionError) None),
            (''b.txt'', meta 1 40)])],
      outcome = Finished 2 40,
      warnings = [Stat_warning PermissionError [''d'', ''a (3).txt'']],
      kept = [[''d'', ''a (1).txt'']],
      files_to_remove = [([''d'', ''a (2).txt''], 30), ([''d'', ''a.txt''], 10)],
      deleted = [[''d'', ''a (2).txt''], [''d'', ''a.txt'']]\<rparr>"
proof -
  obtain es where es: "lookup example_fs [''d''] = Some (Dir None None None es)"
    using example_lookup by metis
  then have r: "rglob [''d''] (Dir None None None es) = example_files"
    using example_scan by simp
  have c: "confirmed (Some '' Yes '')"
    by (simp add: confirmed_def strip_def isspace_def lower_def lower_char_def char_of_eq_iff)
  from es r c show ?thesis
    by (simp add: find_and_remove_duplicates_def process_groups_def example_sorted
        example_warnings example_plan example_delete Let_def del: delete_files.simps)
qed

lemma not_confirmed:
  "\<not> confirmed None" "\<not> confirmed (Some [])" "\<not> confirmed (Some ''y'')"
  "\<not> confirmed (Some ''no'')"
  by (simp_all add: confirmed_def strip_def isspace_def lower_def lower_char_def char_of_eq_iff)

section \<open>Facts about the pruners\<close>

lemma check_dir_removes_empty: "removes_empty (check_dir False)"
  by (simp add: removes_empty_def)

lemma check_dir_deepseek_removes_empty: "removes_empty (check_dir_deepseek force_delete)"
  by (simp add: removes_empty_def removal_error_def)

lemma check_dir_keeps_visited: "keeps_visited (check_dir dry_run)"
  unfolding keeps_visited_def
proof (intro allI)
  fix d n c
  show "visited (snd (check_dir dry_run d n c)) = visited c"
    by (cases n) (auto split: option.splits)
qed

lemma check_dir_deepseek_keeps_visited: "keeps_visited (check_dir_deepseek force_delete)"
  unfolding keeps_visited_def
proof (intro allI)
  fix d n c
  show "visited (snd (check_dir_deepseek force_delete d n c)) = visited c"
    by (cases n) (auto split: option.splits)
qed

subsection \<open>The cascade\<close>

lemma removes_empty_fst:
  assumes "removes_empty body"
  shows "fst (body d (Dir None None None es) c) =
     (if es = [] then None else Some (Dir None None None es))"
proof -
  have "body d (Dir None None None es) c =
     (if es = []
      then (None, c\<lparr>deleted_count := deleted_count c + 1, removed := removed c @ [d]\<rparr>)
      else (Some (Dir None None None es), c))"
    by (rule assms [unfolded removes_empty_def, rule_format])
  then have "fst (body d (Dir None None None es) c) =
     fst (if es = []
      then (None, c\<lparr>deleted_count := deleted_count c + 1, removed := removed c @ [d]\<rparr>)
      else (Some (Dir None None None es), c))"
    by (rule arg_cong)
  also have "\<dots> = (if es = [] then None else Some (Dir None None None es))" by simp
  finally show ?thesis .
qed

lemma walk_cascade:
  "removes_empty body \<Longrightarrow> permissive n \<Longrightarrow>
     (case fst (walk body d n c) of
        None \<Rightarrow> hollow n
      | Some n' \<Rightarrow> \<not> hollow n \<and> no_empty_dir n' \<and> permissive n')"
  "removes_empty body \<Longrightarrow> permissive_entries es \<Longrightarrow>
     (fst (walk_entries body d es c) = [] \<longleftrightarrow> hollow_entries es) \<and>
     no_empty_dir_entries (fst (walk_entries body d es c)) \<and>
     permissive_entries (fst (walk_entries body d es c))"
proof (induction body d n c and body d es c rule: walk_walk_entries.induct)
  case (1 body d s u c)
  show ?case by simp
next
  case (2 body d l r t es c)
  from "2.prems" have p: "l = None" "r = None" "t = None" "permissive_entries es" by simp_all
  obtain es' c' where w: "walk_entries body d es c = (es', c')" by (cases "walk_entries body d es c")
  with "2.IH" "2.prems"(1) p have IH: "(es' = [] \<longleftrightarrow> hollow_entries es)" "no_empty_dir_entries es'"
    "permissive_entries es'" by simp_all
  note b = removes_empty_fst [OF "2.prems"(1), of d es' "c'\<lparr>visited := visited c' @ [d]\<rparr>"]
  show ?case
  proof (cases "es' = []")
    case True
    with p w b IH show ?thesis by simp
  next
    case False
    with p w b IH show ?thesis by simp
  qed
next
  case (3 body d c)
  show ?case by simp
next
  case (4 body d name n es c)
  from "4.prems" have p: "permissive n" "permissive_entries es" by simp_all
  obtain n' c' where w1: "walk body (d @ [name]) n c = (n', c')"
    by (cases "walk body (d @ [name]) n c")
  obtain es' c'' where w2: "walk_entries body d es c' = (es', c'')"
    by (cases "walk_entries body d es c'")
  from "4.IH"(1) "4.prems"(1) p(1) w1 have IH1: "case n' of None \<Rightarrow> hollow n
      | Some m \<Rightarrow> \<not> hollow n \<and> no_empty_dir m \<and> permissive m" by simp
  from "4.IH"(2) [OF w1 [symmetric] "4.prems"(1)] p(2) w2
  have IH2: "(es' = [] \<longleftrightarrow> hollow_entries es)"
    "no_empty_dir_entries es'" "permissive_entries es'" by simp_all
  show ?case
  proof (cases n')
    case None
    with w1 w2 IH1 IH2 show ?thesis by simp
  next
    case (Some m)
    with w1 w2 IH1 IH2 show ?thesis by simp
  qed
qed

subsection \<open>The order of the visits\<close>

lemma keeps_visitedD: "keeps_visited body \<Longrightarrow> visited (snd (body d n c)) = visited c"
  by (simp add: keeps_visited_def)

lemma walk_visited:
  "keeps_visited body \<Longrightarrow> visited (snd (walk body d n c)) = visited c @ post_order d n"
  "keeps_visited body \<Longrightarrow>
     visited (snd (walk_entries body d es c)) = visited c @ post_order_entries d es"
proof (induction body d n c and body d es c rule: walk_walk_entries.induct)
  case (1 body d s u c)
  show ?case by simp
next
  case (2 body d l r t es c)
  show ?case
  proof (cases "l = None")
    case False
    then show ?thesis by simp
  next
    case True
    obtain es' c' where w: "walk_entries body d es c = (es', c')"
      by (cases "walk_entries body d es c")
    with "2.IH" "2.prems" True have "visited c' = visited c @ post_order_entries d es" by simp
    with True w keeps_visitedD [OF "2.prems"] show ?thesis by simp
  qed
next
  case (3 body d c)
  show ?case by simp
next
  case (4 body d name n es c)
  obtain n' c' where w1: "walk body (d @ [name]) n c = (n', c')"
    by (cases "walk body (d @ [name]) n c")
  obtain es' c'' where w2: "walk_entries body d es c' = (es', c'')"
    by (cases "walk_entries body d es c'")
  from "4.IH"(1) "4.prems" w1 have 1: "visited c' = visited c @ post_order (d @ [name]) n" by simp
  from "4.IH"(2) [OF w1 [symmetric] "4.prems"] w2
  have 2: "visited c'' = visited c' @ post_order_entries d es" by simp
  from 1 2 w1 w2 show ?case by simp
qed

lemma post_order_below:
  "p \<in> set (post_order d n) \<Longrightarrow> prefix d p"
  "p \<in> set (post_order_entries d es) \<Longrightarrow> \<exists>name \<in> fst ` set es. prefix (d @ [name]) p"
proof (induction d n and d es arbitrary: p and p rule: post_order_post_order_entries.induct)
  case (1 d s u)
  then show ?case by simp
next
  case (2 d l r t es)
  then show ?case by (fastforce split: if_splits dest: append_prefixD)
next
  case (3 d)
  then show ?case by simp
next
  case (4 d name n es)
  then show ?case by fastforce
qed

lemma post_order_bottom_up:
  "wf_node n \<Longrightarrow> sorted_wrt (\<lambda>p q. \<not> strict_prefix p q) (post_order d n)"
  "distinct (map fst es) \<Longrightarrow> wf_entries es \<Longrightarrow>
     sorted_wrt (\<lambda>p q. \<not> strict_prefix p q) (post_order_entries d es)"
proof (induction d n and d es rule: post_order_post_order_entries.induct)
  case (1 d s u)
  show ?case by simp
next
  case (2 d l r t es)
  show ?case
  proof (cases "l = None")
    case False
    then show ?thesis by simp
  next
    case True
    from "2.prems" have "distinct (map fst es)" "wf_entries es" by simp_all
    with "2.IH" True have s: "sorted_wrt (\<lambda>p q. \<not> strict_prefix p q) (post_order_entries d es)"
      by simp
    have "\<not> strict_prefix p d" if "p \<in> set (post_order_entries d es)" for p
    proof -
      from that obtain name where "prefix (d @ [name]) p" using post_order_below(2) by blast
      then have "length d < length p" by (auto simp: prefix_def)
      then show ?thesis by (auto simp: strict_prefix_def prefix_def)
    qed
    with s True show ?thesis by (simp add: sorted_wrt_append)
  qed
next
  case (3 d)
  show ?case by simp
next
  case (4 d name n es)
  from "4.prems" have w: "wf_node n" "wf_entries es" "distinct (map fst es)" "name \<notin> fst ` set es"
    by simp_all
  have cross: "\<not> strict_prefix p q"
    if "p \<in> set (post_order (d @ [name]) n)" "q \<in> set (post_order_entries d es)" for p q
  proof
    assume sp: "strict_prefix p q"
    from that(1) have "prefix (d @ [name]) p" by (rule post_order_below(1))
    with sp have 1: "prefix (d @ [name]) q" by (auto simp: strict_prefix_def)
    from that(2) obtain name' where n': "name' \<in> fst ` set es" "prefix (d @ [name']) q"
      using post_order_below(2) by blast
    from 1 n'(2) have "name = name'" by (auto simp: prefix_def)
    with n'(1) w(4) show False by simp
  qed
  from "4.IH" w cross show ?case by (simp add: sorted_wrt_append)
qed

subsection \<open>A dry run\<close>

lemma walk_dry_run:
  "fst (walk (check_dir True) d n c) = Some n \<and>
   removed (snd (walk (check_dir True) d n c)) = removed c"
  "fst (walk_entries (check_dir True) d es c) = es \<and>
   removed (snd (walk_entries (check_dir True) d es c)) = removed c"
proof (induction "check_dir True" d n c and "check_dir True" d es c
    rule: walk_walk_entries.induct)
  case (1 d s u c)
  show ?case by simp
next
  case (2 d l r t es c)
  obtain es' c' where w: "walk_entries (check_dir True) d es c = (es', c')"
    by (cases "walk_entries (check_dir True) d es c")
  show ?case
  proof (cases "l = None")
    case False
    then show ?thesis by simp
  next
    case True
    with "2.hyps" w have "es' = es" "removed c' = removed c" by simp_all
    with True w show ?thesis by simp
  qed
next
  case (3 d c)
  show ?case by simp
next
  case (4 d name n es c)
  obtain n' c' where w1: "walk (check_dir True) (d @ [name]) n c = (n', c')"
    by (cases "walk (check_dir True) (d @ [name]) n c")
  obtain es' c'' where w2: "walk_entries (check_dir True) d es c' = (es', c'')"
    by (cases "walk_entries (check_dir True) d es c'")
  from "4.hyps"(1) w1 have 1: "n' = Some n" "removed c' = removed c" by simp_all
  from "4.hyps"(2) [OF w1 [symmetric]] w2 have 2: "es' = es" "removed c'' = removed c'" by simp_all
  from 1 2 w1 w2 show ?case by simp
qed

subsection \<open>Runs without errors\<close>

lemma removes_empty_snd:
  assumes "removes_empty body"
  shows "snd (body d (Dir None None None es) c) =
     (if es = [] then c\<lparr>deleted_count := deleted_count c + 1, removed := removed c @ [d]\<rparr>
      else c)"
proof -
  have "body d (Dir None None None es) c =
     (if es = []
      then (None, c\<lparr>deleted_count := deleted_count c + 1, removed := removed c @ [d]\<rparr>)
      else (Some (Dir None None None es), c))"
    by (rule assms [unfolded removes_empty_def, rule_format])
  then have "snd (body d (Dir None None None es) c) =
     snd (if es = []
      then (None, c\<lparr>deleted_count := deleted_count c + 1, removed := removed c @ [d]\<rparr>)
      else (Some (Dir None None None es), c))"
    by (rule arg_cong)
  also have "\<dots> = (if es = [] then c\<lparr>deleted_count := deleted_count c + 1,
      removed := removed c @ [d]\<rparr> else c)" by simp
  finally show ?thesis .
qed

lemma walk_no_errors:
  "removes_empty body \<Longrightarrow> permissive n \<Longrightarrow>
     error_count (snd (walk body d n c)) = error_count c"
  "removes_empty body \<Longrightarrow> permissive_entries es \<Longrightarrow>
     error_count (snd (walk_entries body d es c)) = error_count c"
proof (induction body d n c and body d es c rule: walk_walk_entries.induct)
  case (1 body d s u c)
  show ?case by simp
next
  case (2 body d l r t es c)
  from "2.prems" have p: "l = None" "r = None" "t = None" "permissive_entries es" by simp_all
  obtain es' c' where w: "walk_entries body d es c = (es', c')"
    by (cases "walk_entries body d es c")
  with "2.IH" "2.prems"(1) p have "error_count c' = error_count c" by simp
  with p w removes_empty_snd [OF "2.prems"(1), of d es' "c'\<lparr>visited := visited c' @ [d]\<rparr>"]
  show ?case by simp
next
  case (3 body d c)
  show ?case by simp
next
  case (4 body d name n es c)
  from "4.prems" have p: "permissive n" "permissive_entries es" by simp_all
  obtain n' c' where w1: "walk body (d @ [name]) n c = (n', c')"
    by (cases "walk body (d @ [name]) n c")
  obtain es' c'' where w2: "walk_entries body d es c' = (es', c'')"
    by (cases "walk_entries body d es c'")
  from "4.IH"(1) "4.prems"(1) p(1) w1 have 1: "error_count c' = error_count c" by simp
  from "4.IH"(2) [OF w1 [symmetric] "4.prems"(1)] p(2) w2
  have 2: "error_count c'' = error_count c'" by simp
  from 1 2 w1 w2 show ?case by simp
qed

lemma walk_hollow:
  "removes_empty body \<Longrightarrow> keeps_visited body \<Longrightarrow> permissive n \<Longrightarrow> hollow n \<Longrightarrow>
     removed (snd (walk body d n c)) = removed c @ post_order d n"
  "removes_empty body \<Longrightarrow> keeps_visited body \<Longrightarrow> permissive_entries es \<Longrightarrow>
   hollow_entries es \<Longrightarrow>
     removed (snd (walk_entries body d es c)) = removed c @ post_order_entries d es"
proof (induction body d n c and body d es c rule: walk_walk_entries.induct)
  case (1 body d s u c)
  then show ?case by simp
next
  case (2 body d l r t es c)
  from "2.prems" have p: "l = None" "r = None" "t = None" "permissive_entries es"
    "hollow_entries es" by simp_all
  obtain es' c' where w: "walk_entries body d es c = (es', c')"
    by (cases "walk_entries body d es c")
  from walk_cascade(2) [OF "2.prems"(1) p(4), of d c] w p(5) have e: "es' = []" by simp
  from "2.IH" "2.prems"(1,2) p w have "removed c' = removed c @ post_order_entries d es" by simp
  with p w e removes_empty_snd [OF "2.prems"(1), of d es' "c'\<lparr>visited := visited c' @ [d]\<rparr>"]
  show ?case by simp
next
  case (3 body d c)
  show ?case by simp
next
  case (4 body d name n es c)
  from "4.prems" have p: "permissive n" "permissive_entries es" "hollow n" "hollow_entries es"
    by simp_all
  obtain n' c' where w1: "walk body (d @ [name]) n c = (n', c')"
    by (cases "walk body (d @ [name]) n c")
  obtain es' c'' where w2: "walk_entries body d es c' = (es', c'')"
    by (cases "walk_entries body d es c'")
  from "4.IH"(1) "4.prems"(1,2) p w1
  have 1: "removed c' = removed c @ post_order (d @ [name]) n" by simp
  from "4.IH"(2) [OF w1 [symmetric] "4.prems"(1,2)] p w2
  have 2: "removed c'' = removed c' @ post_order_entries d es" by simp
  from 1 2 w1 w2 show ?case by simp
qed

lemma walk_visits_bottom_up:
  assumes "keeps_visited body"
    and "wf_node root" and "\<not> is_file root" and "list_error root = None"
  shows "visits_bottom_up root_dir (walk body root_dir root start)"
proof -
  from assms(3) obtain l rr t es where root: "root = Dir l rr t es" by (cases root) auto
  with assms(4) have l: "l = None" by simp
  have v: "visited (snd (walk body root_dir root start)) = post_order root_dir root"
    using walk_visited(1) [OF assms(1), of root_dir root start] by (simp add: start_def)
  have "sorted_wrt (\<lambda>p q. \<not> strict_prefix p q) (post_order root_dir root)"
    using assms(2) by (rule post_order_bottom_up(1))
  moreover have "post_order root_dir root \<noteq> [] \<and> last (post_order root_dir root) = root_dir"
    using root l by simp
  ultimately show ?thesis using v by (simp add: visits_bottom_up_def)
qed

lemma walk_cascaded:
  assumes b: "removes_empty body" "keeps_visited body"
    and r: "permissive root"
  shows "cascaded root (walk body root_dir root start)"
proof -
  obtain after c where w: "walk body root_dir root start = (after, c)"
    by (cases "walk body root_dir root start")
  have v: "visited c = post_order root_dir root"
    using walk_visited(1) [OF b(2), of root_dir root start] w by (simp add: start_def)
  have 3: "error_count c = 0"
    using walk_no_errors(1) [OF b(1) r, of root_dir start] w by (simp add: start_def)
  have 4: "case after of None \<Rightarrow> hollow root
      | Some n' \<Rightarrow> \<not> hollow root \<and> no_empty_dir n' \<and> permissive n'"
    using walk_cascade(1) [OF b(1) r, of root_dir start] w by simp
  have 5: "removed c = visited c" if "hollow root"
    using walk_hollow(1) [OF b r that, of root_dir start] w v by (simp add: start_def)
  from 3 4 5 w show ?thesis by (auto simp: cascaded_def split: option.splits)
qed

lemma final_root_check_visited:
  "visited (snd (final_root_check force_delete root_dir after c)) = visited c"
  by (cases "(force_delete, root_dir, after, c)" rule: final_root_check.cases)
    (auto split: option.splits)

lemma delete_empty_recursive_visits:
  assumes "wf_node root" and "\<not> is_file root" and "list_error root = None"
  shows "visits_bottom_up root_dir (delete_empty_recursive root_dir root force_delete)"
proof -
  let ?w = "walk (check_dir_deepseek force_delete) root_dir root start"
  have "visits_bottom_up root_dir ?w"
    using check_dir_deepseek_keeps_visited assms by (rule walk_visits_bottom_up)
  moreover have "visited (snd (delete_empty_recursive root_dir root force_delete)) =
      visited (snd ?w)"
    by (simp add: delete_empty_recursive_def final_root_check_visited split: prod.splits)
  ultimately show ?thesis by (simp add: visits_bottom_up_def)
qed

lemma walk_result_dir:
  assumes "removes_empty body" and "permissive root" and "\<not> is_file root"
    and "fst (walk body d root c) = Some n'"
  shows "\<exists>es'. n' = Dir None None None es'"
proof -
  from assms(3) obtain l r t es where root: "root = Dir l r t es" by (cases root) auto
  with assms(2) have p: "l = None" "r = None" "t = None" by simp_all
  obtain es' c' where w: "walk_entries body d es c = (es', c')"
    by (cases "walk_entries body d es c")
  from assms(4) root p w
    removes_empty_fst [OF assms(1), of d es' "c'\<lparr>visited := visited c' @ [d]\<rparr>"]
  show ?thesis by (auto split: if_splits)
qed

lemma delete_empty_recursive_cascaded:
  assumes r: "permissive root" "\<not> is_file root"
  shows "cascaded root (delete_empty_recursive root_dir root force_delete)"
proof -
  let ?body = "check_dir_deepseek force_delete"
  obtain after c where w: "walk ?body root_dir root start = (after, c)"
    by (cases "walk ?body root_dir root start")
  have "cascaded root (walk ?body root_dir root start)"
    using check_dir_deepseek_removes_empty check_dir_deepseek_keeps_visited r(1)
    by (rule walk_cascaded)
  with w have c: "cascaded root (after, c)" by simp
  show ?thesis
  proof (cases after)
    case None
    with w c show ?thesis by (simp add: delete_empty_recursive_def)
  next
    case (Some n')
    with w have "fst (walk ?body root_dir root start) = Some n'" by simp
    then obtain es' where n': "n' = Dir None None None es'"
      using walk_result_dir [OF check_dir_deepseek_removes_empty r] by blast
    from c Some have "no_empty_dir n'" by (simp add: cascaded_def)
    with n' have "es' \<noteq> []" by simp
    with n' Some w c show ?thesis by (simp add: delete_empty_recursive_def)
  qed
qed

subsection \<open>The tree \<open>a/b/c\<close>\<close>

lemma abc_live:
  "delete_empty_dirs_recursive [''a''] abc False =
     (None, \<lparr>deleted_count = 3, error_count = 0,
             visited = [[''a'', ''b'', ''c''], [''a'', ''b''], [''a'']],
             removed = [[''a'', ''b'', ''c''], [''a'', ''b''], [''a'']]\<rparr>)"
  by (simp add: delete_empty_dirs_recursive_def abc_def empty_dir_def start_def)

lemma abc_dry:
  "delete_empty_dirs_recursive [''a''] abc True =
     (Some abc, \<lparr>deleted_count = 1, error_count = 0,
             visited = [[''a'', ''b'', ''c''], [''a'', ''b''], [''a'']],
             removed = []\<rparr>)"
  by (simp add: delete_empty_dirs_recursive_def abc_def empty_dir_def start_def)

lemma abc_deepseek:
  "delete_empty_recursive [''a''] abc True =
     (None, \<lparr>deleted_count = 3, error_count = 0,
             visited = [[''a'', ''b'', ''c''], [''a'', ''b''], [''a'']],
             removed = [[''a'', ''b'', ''c''], [''a'', ''b''], [''a'']]\<rparr>)"
  "delete_empty_recursive [''a''] abc False =
     (None, \<lparr>deleted_count = 3, error_count = 0,
             visited = [[''a'', ''b'', ''c''], [''a'', ''b''], [''a'']],
             removed = [[''a'', ''b'', ''c''], [''a'', ''b''], [''a'']]\<rparr>)"
  by (simp_all add: delete_empty_recursive_def abc_def empty_dir_def start_def removal_error_def)

chapter \<open>The claims\<close>

section \<open>Claims about \<open>clean_filename\<close>\<close>

text \<open>
  Claim C10: \<open>clean_filename\<close> terminates for every file name, every compiled pattern and
  either value of the copy-detection flag. One run of the loop body leaves the stem unchanged
  (the loop then exits) or makes it strictly shorter, the result is the stem after
  \<open>loop_iterations\<close> runs of the body, and the body runs at most length of the stem plus one
  times.
\<close>

theorem clean_loop_terminates:
  "(clean_pass p detect_copy stem = stem \<or>
      length (clean_pass p detect_copy stem) < length stem) \<and>
   clean_loop p detect_copy stem =
     (clean_pass p detect_copy ^^ loop_iterations p detect_copy stem) stem \<and>
   loop_iterations p detect_copy stem \<le> length stem + 1"
  using clean_pass_cases [of p detect_copy stem] clean_loop_funpow [of p detect_copy stem]
    loop_iterations_bound [of p detect_copy stem]
  by simp

theorem clean_loop_terminates_witness:
  "loop_iterations default_pattern True ''a - copy.copy'' = 3 \<and>
   loop_iterations default_pattern True ''a - copy.copy'' \<le> length ''a - copy.copy'' + 1"
  using clean_loop_terminates [of default_pattern True "''a - copy.copy''"]
    iterations_a_copy_copy
  by simp



text \<open>
  Claim C8: a file name without duplicate markers is returned unchanged: when the pattern
  has no match in the stem and, with copy detection enabled, neither \<open>.copy\<close> nor
  \<open> - copy\<close> occurs in the stem (in any letter case), \<open>clean_filename\<close> returns the file
  name. A file name is a string that is its own \<open>Path(...).name\<close>, as the \<open>file_path.name\<close>
  that \<open>find_and_remove_duplicates\<close> passes.
\<close>

theorem clean_filename_no_markers:
  assumes "path_name filename = filename"
    and "search p (path_stem filename) = None"
    and "detect_copy \<longrightarrow> (\<forall>i. \<not> copy_marker_at (path_stem filename) i)"
  shows "clean_filename p detect_copy filename = filename"
  using assms by (intro clean_filename_unchanged) simp_all

theorem clean_filename_no_markers_witness:
  "clean_filename default_pattern True ''notes.txt'' = ''notes.txt''"
proof -
  have "path_name ''notes.txt'' = ''notes.txt''" using name_notes_txt by simp
  moreover have "search default_pattern (path_stem ''notes.txt'') = None"
    using name_notes_txt search_notes by simp
  moreover have "True \<longrightarrow> (\<forall>i. \<not> copy_marker_at (path_stem ''notes.txt'') i)"
    using name_notes_txt no_copy_marker_notes by simp
  ultimately show ?thesis by (rule clean_filename_no_markers)
qed

text \<open>
  Claim C9: \<open>clean_filename\<close> searches the stem only. The result is always the cleaned stem
  followed by the suffix that was split off at entry, and for a name made of a non-empty
  stem and an extension the loop runs on that stem alone, whatever the extension holds.
  So \<open>file.copy\<close>, whose suffix is \<open>.copy\<close>, is returned unchanged with copy detection
  enabled, while \<open>photo.copy.jpg\<close> becomes \<open>photo.jpg\<close>.
\<close>

theorem clean_filename_suffix_verbatim:
  "clean_filename p detect_copy filename =
     clean_loop p detect_copy (path_stem (path_name filename)) @ path_suffix (path_name filename) \<and>
   (stem \<noteq> [] \<and> is_ext ext \<and> CHR ''/'' \<notin> set (stem @ ext) \<longrightarrow>
      clean_filename p detect_copy (stem @ ext) = clean_loop p detect_copy stem @ ext) \<and>
   path_suffix ''file.copy'' = ''.copy'' \<and>
   clean_filename default_pattern True ''file.copy'' = ''file.copy'' \<and>
   clean_filename default_pattern True ''photo.copy.jpg'' = ''photo.jpg''"
proof (intro conjI impI)
  show "clean_filename p detect_copy filename =
     clean_loop p detect_copy (path_stem (path_name filename)) @ path_suffix (path_name filename)"
    by (rule clean_filename_split)
next
  assume "stem \<noteq> [] \<and> is_ext ext \<and> CHR ''/'' \<notin> set (stem @ ext)"
  then show "clean_filename p detect_copy (stem @ ext) = clean_loop p detect_copy stem @ ext"
    by (intro clean_filename_stem_ext) simp_all
next
  show "path_suffix ''file.copy'' = ''.copy''" by (simp add: eval_defs)
next
  show "clean_filename default_pattern True ''file.copy'' = ''file.copy''"
    by (rule clean_file_copy)
next
  show "clean_filename default_pattern True ''photo.copy.jpg'' = ''photo.jpg''"
    by (rule clean_photo_copy_jpg)
qed

theorem clean_filename_suffix_verbatim_witness:
  "clean_filename default_pattern True (''file'' @ ''.copy'') =
     clean_loop default_pattern True ''file'' @ ''.copy''"
proof -
  have "''file'' \<noteq> [] \<and> is_ext ''.copy'' \<and> CHR ''/'' \<notin> set (''file'' @ ''.copy'')"
    by (simp add: is_ext_def)
  with clean_filename_suffix_verbatim [of default_pattern True "''file.copy''" "''file''" "''.copy''"]
  show ?thesis by blast
qed

text \<open>
  Claim C2, as the code has it: normalization is idempotent for every file name that has
  an extension and whose cleaned stem is not empty; re-normalizing the output of
  \<open>clean_filename\<close> with the same pattern and flag then returns that output. This covers
  \<open>a - copy.copy.txt\<close>, which becomes \<open>a.txt\<close>. When the cleaned stem is empty the old
  extension is parsed as the stem of the output and is cleaned in turn.
\<close>

theorem clean_filename_idempotent:
  assumes "has_suffix (path_name filename)"
    and "clean_loop p detect_copy (path_stem (path_name filename)) \<noteq> []"
  shows "clean_filename p detect_copy (clean_filename p detect_copy filename) =
         clean_filename p detect_copy filename"
  using assms by (rule clean_filename_idem)

theorem clean_filename_idempotent_witness:
  "clean_filename default_pattern True ''a - copy.copy.txt'' = ''a.txt'' \<and>
   clean_filename default_pattern True
     (clean_filename default_pattern True ''a - copy.copy.txt'') =
   clean_filename default_pattern True ''a - copy.copy.txt''"
proof -
  have h: "has_suffix (path_name ''a - copy.copy.txt'')" by (simp add: eval_defs)
  have "clean_loop default_pattern True (path_stem (path_name ''a - copy.copy.txt'')) = ''a''"
    by (simp add: eval_defs)
  then have "clean_loop default_pattern True (path_stem (path_name ''a - copy.copy.txt'')) \<noteq> []"
    by simp
  with h have "clean_filename default_pattern True
     (clean_filename default_pattern True ''a - copy.copy.txt'') =
   clean_filename default_pattern True ''a - copy.copy.txt''"
    by (rule clean_filename_idempotent)
  with clean_a_copy_copy_txt show ?thesis by simp
qed

theorem clean_filename_not_idempotent:
  "clean_filename default_pattern True (clean_filename default_pattern True ''(1).copy'') \<noteq>
   clean_filename default_pattern True ''(1).copy''"
  by (simp add: clean_1_copy clean_dot_copy)

section \<open>Claims about the duplicate remover\<close>

text \<open>
  Claim C1: take the files whose grouping key (the lower-cased parent path joined with the
  normalized name) is \<open>k\<close>, in the order of discovery, and let every metadata read of a
  member succeed. The group is sorted by creation time, ascending, members of equal time
  staying in the order of discovery. The first member of the sorted group has the least
  creation time (it is the first discovered of the oldest members) and is not in the list
  of files to remove; every other member is in that list exactly once. The scanned paths
  are distinct, as \<open>distinct_rglob\<close> and \<open>distinct_immediate_files\<close> show for a scan.
\<close>

theorem oldest_member_survives:
  assumes "distinct all_files"
    and "g = filter (\<lambda>f. group_key p detect_copy f = k) all_files"
    and "\<forall>f \<in> set g. \<not> isl (stat fs f)"
    and "s = sort_key (ctime_of (stat fs)) g"
  shows "sorted (map (ctime_of (stat fs)) s) \<and> set s = set g \<and>
     (\<forall>t. filter (\<lambda>f. ctime_of (stat fs) f = t) s = filter (\<lambda>f. ctime_of (stat fs) f = t) g) \<and>
     (1 < length g \<longrightarrow>
        map_of (groups_with_duplicates (stat fs) (group_files (group_key p detect_copy) all_files)) k
          = Some s) \<and>
     (g \<noteq> [] \<longrightarrow>
        hd s = hd (filter (\<lambda>f. ctime_of (stat fs) f = ctime_of (stat fs) (hd s)) g)) \<and>
     (\<forall>f \<in> set g. ctime_of (stat fs) (hd s) \<le> ctime_of (stat fs) f \<and>
        length (filter (\<lambda>item. fst item = f) (plan p detect_copy fs all_files)) =
          (if f = hd s then 0 else 1))"
proof (intro conjI allI impI ballI)
  show "sorted (map (ctime_of (stat fs)) s)" using assms(4) by (simp add: sorted_sort_key)
  show "set s = set g" using assms(4) by simp
  show "filter (\<lambda>f. ctime_of (stat fs) f = t) s = filter (\<lambda>f. ctime_of (stat fs) f = t) g" for t
    using assms(4) by (simp add: sort_key_stable)
  show "map_of (groups_with_duplicates (stat fs) (group_files (group_key p detect_copy) all_files)) k
          = Some s" if "1 < length g"
    using that assms(2,3,4)
    by (simp add: map_of_groups_with_duplicates sorted_group_eq readable_all)
  show "hd s = hd (filter (\<lambda>f. ctime_of (stat fs) f = ctime_of (stat fs) (hd s)) g)"
    if "g \<noteq> []"
    unfolding assms(4) using that by (rule hd_sort_key_first_min)
  show "ctime_of (stat fs) (hd s) \<le> ctime_of (stat fs) f" if "f \<in> set g" for f
  proof -
    from that have "g \<noteq> []" by auto
    then show ?thesis using that assms(4) by (simp add: hd_sort_key_min)
  qed
  show "length (filter (\<lambda>item. fst item = f) (plan p detect_copy fs all_files)) =
          (if f = hd s then 0 else 1)" if "f \<in> set g" for f
    using group_occurrences [OF assms that] by (simp add: occurrences_in_plan)
qed

theorem oldest_member_survives_witness:
  "hd (sort_key (ctime_of (stat example_fs))
         [[''d'', ''a.txt''], [''d'', ''a (1).txt''], [''d'', ''a (2).txt'']]) =
     [''d'', ''a (1).txt''] \<and>
   length (filter (\<lambda>item. fst item = [''d'', ''a (1).txt''])
     (plan default_pattern False example_fs
        [[''d'', ''a.txt''], [''d'', ''a (1).txt''], [''d'', ''a (2).txt'']])) = 0 \<and>
   length (filter (\<lambda>item. fst item = [''d'', ''a.txt''])
     (plan default_pattern False example_fs
        [[''d'', ''a.txt''], [''d'', ''a (1).txt''], [''d'', ''a (2).txt'']])) = 1 \<and>
   length (filter (\<lambda>item. fst item = [''d'', ''a (2).txt''])
     (plan default_pattern False example_fs
        [[''d'', ''a.txt''], [''d'', ''a (1).txt''], [''d'', ''a (2).txt'']])) = 1"
proof -
  let ?all = "[[''d'', ''a.txt''], [''d'', ''a (1).txt''], [''d'', ''a (2).txt'']]"
  let ?s = "sort_key (ctime_of (stat example_fs)) ?all"
  have d: "distinct ?all" by simp
  have g: "?all = filter (\<lambda>f. group_key default_pattern False f = ''/d/a.txt'') ?all"
    by (simp add: example_key)
  have ok: "\<forall>f \<in> set ?all. \<not> isl (stat example_fs f)" by (simp add: example_stat)
  have hd: "hd ?s = [''d'', ''a (1).txt'']" by (simp add: ctime_of_def example_stat)
  note t = oldest_member_survives [OF d g ok refl]
  from t have "\<forall>f \<in> set ?all.
      length (filter (\<lambda>item. fst item = f) (plan default_pattern False example_fs ?all)) =
        (if f = hd ?s then 0 else 1)" by blast
  with hd show ?thesis by simp
qed

text \<open>
  Claim C4: in a group of two or more files, each member whose \<open>stat\<close> fails is reported by
  a warning and left out of the group. The group is kept, sorted, when two or more members
  remain; when one or none remains the group is dropped and none of its members is in the
  list of files to remove.
\<close>

theorem unreadable_member_is_dropped:
  assumes "g = filter (\<lambda>f. group_key p detect_copy f = k) all_files"
    and "1 < length g"
  shows "stat_warnings (stat fs) g =
       map (\<lambda>f. Stat_warning (projl (stat fs f)) f) (filter (\<lambda>f. isl (stat fs f)) g) \<and>
     set (stat_warnings (stat fs) g) \<subseteq>
       set (group_warnings (stat fs) (group_files (group_key p detect_copy) all_files)) \<and>
     map_of (groups_with_duplicates (stat fs) (group_files (group_key p detect_copy) all_files)) k =
       (if 1 < length (readable (stat fs) g)
        then Some (sort_key (ctime_of (stat fs)) (readable (stat fs) g)) else None) \<and>
     (length (readable (stat fs) g) \<le> 1 \<longrightarrow>
        (\<forall>f \<in> set g. f \<notin> fst ` set (plan p detect_copy fs all_files)))"
proof (intro conjI impI ballI)
  show "stat_warnings (stat fs) g =
       map (\<lambda>f. Stat_warning (projl (stat fs f)) f) (filter (\<lambda>f. isl (stat fs f)) g)"
    by (rule stat_warnings_eq)
  from assms have "(k, g) \<in> set (group_files (group_key p detect_copy) all_files)"
    by (auto simp: group_files_member)
  then show "set (stat_warnings (stat fs) g) \<subseteq>
       set (group_warnings (stat fs) (group_files (group_key p detect_copy) all_files))"
    using assms(2) by (rule group_warnings_subset)
  show "map_of (groups_with_duplicates (stat fs) (group_files (group_key p detect_copy) all_files)) k =
       (if 1 < length (readable (stat fs) g)
        then Some (sort_key (ctime_of (stat fs)) (readable (stat fs) g)) else None)"
    using assms by (simp add: map_of_groups_with_duplicates sorted_group_eq)
  show "f \<notin> fst ` set (plan p detect_copy fs all_files)"
    if "length (readable (stat fs) g) \<le> 1" "f \<in> set g" for f
    using unreadable_group_not_marked [OF assms(1) that] by (simp add: plan_set)
qed

theorem unreadable_member_is_dropped_witness:
  "stat_warnings (stat example_fs) [[''d'', ''a.txt''], [''d'', ''a (3).txt'']] =
     [Stat_warning PermissionError [''d'', ''a (3).txt'']] \<and>
   readable (stat example_fs) [[''d'', ''a.txt''], [''d'', ''a (3).txt'']] = [[''d'', ''a.txt'']] \<and>
   [''d'', ''a.txt''] \<notin>
     fst ` set (plan default_pattern False example_fs [[''d'', ''a.txt''], [''d'', ''a (3).txt'']]) \<and>
   [''d'', ''a (3).txt''] \<notin>
     fst ` set (plan default_pattern False example_fs [[''d'', ''a.txt''], [''d'', ''a (3).txt'']])"
proof -
  let ?all = "[[''d'', ''a.txt''], [''d'', ''a (3).txt'']]"
  have g: "?all = filter (\<lambda>f. group_key default_pattern False f = ''/d/a.txt'') ?all"
    by (simp add: example_key)
  have l: "1 < length ?all" by simp
  have r: "readable (stat example_fs) ?all = [[''d'', ''a.txt'']]"
    by (simp add: readable_def example_stat)
  have w: "stat_warnings (stat example_fs) ?all = [Stat_warning PermissionError [''d'', ''a (3).txt'']]"
    by (simp add: stat_warnings_def example_stat)
  note t = unreadable_member_is_dropped [OF g l, of example_fs]
  from r have "length (readable (stat example_fs) ?all) \<le> 1" by simp
  with t have "\<forall>f \<in> set ?all. f \<notin> fst ` set (plan default_pattern False example_fs ?all)"
    by blast
  with r w show ?thesis by simp
qed

text \<open>
  Claim C6: a dry run changes nothing. \<open>find_and_remove_duplicates\<close> with \<open>dry_run\<close> set
  returns the filesystem it was given and deletes no file; \<open>delete_empty_dirs_recursive\<close>
  with \<open>dry_run\<close> set, also when called through \<open>cli\<close>, leaves the directory as it was and
  removes nothing.
\<close>

theorem dry_run_changes_nothing:
  "fs_after (find_and_remove_duplicates fs directory True pattern auto_confirm detect_copy
      recursive answer) = fs \<and>
   deleted (find_and_remove_duplicates fs directory True pattern auto_confirm detect_copy
      recursive answer) = [] \<and>
   fst (delete_empty_dirs_recursive root_dir root True) = Some root \<and>
   removed (snd (delete_empty_dirs_recursive root_dir root True)) = [] \<and>
   fst (snd (cli root_dir root True yes reply)) = Some root"
proof -
  have 1: "fst (delete_empty_dirs_recursive root_dir root True) = Some root"
    by (simp add: delete_empty_dirs_recursive_def walk_dry_run(1))
  have 2: "removed (snd (delete_empty_dirs_recursive root_dir root True)) = []"
    by (simp add: delete_empty_dirs_recursive_def walk_dry_run(1) start_def)
  from 1 have 3: "fst (snd (cli root_dir root True yes reply)) = Some root"
    by (simp add: cli_def split: prod.splits)
  from 1 2 3 find_dry_run [of fs directory pattern auto_confirm detect_copy recursive answer]
  show ?thesis by simp
qed

theorem dry_run_changes_nothing_witness:
  "fs_after (find_and_remove_duplicates example_fs [''d''] True (Some default_pattern) False False
      True None) = example_fs \<and>
   files_to_remove (find_and_remove_duplicates example_fs [''d''] True (Some default_pattern)
      False False True None) = [([''d'', ''a (2).txt''], 30), ([''d'', ''a.txt''], 10)] \<and>
   fst (delete_empty_dirs_recursive [''a''] abc True) = Some abc"
  using dry_run_changes_nothing [of example_fs "[''d'']" "Some default_pattern" False False
      True None "[''a'']" abc False Confirm_no]
  by (simp add: example_dry_run)

text \<open>
  Claim C7: in live mode without auto-confirm, anything but an explicit yes aborts with no
  deletion and no change of the filesystem. \<open>find_and_remove_duplicates\<close> goes on only when
  the answer, stripped and lower-cased, is \<open>yes\<close>: the empty answer and the end of input
  decline. \<open>cli\<close> of \<open>clean_empty_dir.py\<close> aborts before the walk unless the prompt, whose
  default is no, is answered with yes.
\<close>

theorem declining_changes_nothing:
  "(\<not> confirmed answer \<longrightarrow>
      fs_after (find_and_remove_duplicates fs directory False pattern False detect_copy
        recursive answer) = fs \<and>
      deleted (find_and_remove_duplicates fs directory False pattern False detect_copy
        recursive answer) = [] \<and>
      outcome (find_and_remove_duplicates fs directory False pattern False detect_copy
        recursive answer) \<noteq> Finished n m) \<and>
   (reply \<noteq> Confirm_yes \<longrightarrow> cli root_dir root False False reply = (Exit_aborted, Some root, start)) \<and>
   \<not> confirmed None \<and> \<not> confirmed (Some []) \<and>
   (confirmed (Some a) \<longleftrightarrow> lower (strip a) = ''yes'')"
proof (intro conjI impI)
  assume "\<not> confirmed answer"
  then show "fs_after (find_and_remove_duplicates fs directory False pattern False detect_copy
        recursive answer) = fs"
    and "deleted (find_and_remove_duplicates fs directory False pattern False detect_copy
        recursive answer) = []"
    and "outcome (find_and_remove_duplicates fs directory False pattern False detect_copy
        recursive answer) \<noteq> Finished n m"
    using find_declined [of answer fs directory False pattern detect_copy recursive n m]
    by simp_all
next
  assume "reply \<noteq> Confirm_yes"
  then show "cli root_dir root False False reply = (Exit_aborted, Some root, start)"
    by (simp add: cli_def)
next
  show "\<not> confirmed None" "\<not> confirmed (Some [])" by (rule not_confirmed)+
  show "confirmed (Some a) \<longleftrightarrow> lower (strip a) = ''yes''" by (simp add: confirmed_def)
qed

theorem declining_changes_nothing_witness:
  "fs_after (find_and_remove_duplicates example_fs [''d''] False (Some default_pattern) False
      False True (Some ''y'')) = example_fs \<and>
   deleted (find_and_remove_duplicates example_fs [''d''] False (Some default_pattern) False
      False True (Some ''y'')) = [] \<and>
   cli [''a''] abc False False Confirm_no = (Exit_aborted, Some abc, start)"
  using declining_changes_nothing [of "Some ''y''" example_fs "[''d'']" "Some default_pattern"
      False True 0 0 Confirm_no "[''a'']" abc "''y''"] not_confirmed(3)
  by simp

section \<open>Claims about the pruners\<close>

text \<open>
  Claim C3: the empty-directory pruner cascades bottom-up in a single pass. Each pruner (a
  run of \<open>delete_empty_dirs_recursive\<close>, and \<open>delete_empty_recursive\<close> with or without
  \<open>force_delete\<close>) visits no directory before a directory below it and visits the root
  last, on every tree whose root can be listed. When no call raises, the live runs count
  no error and leave no empty directory: a tree that holds no file is removed entirely,
  the root included, each directory at its visit. On \<open>a/b/c\<close> with \<open>c\<close> empty a live run
  removes \<open>c\<close>, then \<open>b\<close>, then \<open>a\<close>.
\<close>

theorem pruner_cascades_bottom_up:
  assumes "wf_node root" and "\<not> is_file root" and "list_error root = None"
  shows "visits_bottom_up root_dir (delete_empty_dirs_recursive root_dir root dry_run) \<and>
         visits_bottom_up root_dir (delete_empty_recursive root_dir root force_delete) \<and>
         (permissive root \<longrightarrow>
            cascaded root (delete_empty_dirs_recursive root_dir root False) \<and>
            cascaded root (delete_empty_recursive root_dir root force_delete)) \<and>
         removed (snd (delete_empty_dirs_recursive [''a''] abc False)) =
           [[''a'', ''b'', ''c''], [''a'', ''b''], [''a'']] \<and>
         fst (delete_empty_dirs_recursive [''a''] abc False) = None"
proof (intro conjI impI)
  show "visits_bottom_up root_dir (delete_empty_dirs_recursive root_dir root dry_run)"
    unfolding delete_empty_dirs_recursive_def
    using check_dir_keeps_visited assms by (rule walk_visits_bottom_up)
  show "visits_bottom_up root_dir (delete_empty_recursive root_dir root force_delete)"
    using assms by (rule delete_empty_recursive_visits)
  show "cascaded root (delete_empty_dirs_recursive root_dir root False)" if "permissive root"
    unfolding delete_empty_dirs_recursive_def
    using check_dir_removes_empty check_dir_keeps_visited that by (rule walk_cascaded)
  show "cascaded root (delete_empty_recursive root_dir root force_delete)" if "permissive root"
    using that assms(2) by (rule delete_empty_recursive_cascaded)
  show "removed (snd (delete_empty_dirs_recursive [''a''] abc False)) =
           [[''a'', ''b'', ''c''], [''a'', ''b''], [''a'']]"
    by (simp add: abc_live)
  show "fst (delete_empty_dirs_recursive [''a''] abc False) = None"
    by (simp add: abc_live)
qed

theorem pruner_cascades_bottom_up_witness:
  "visits_bottom_up [''a''] (delete_empty_dirs_recursive [''a''] abc False) \<and>
   cascaded abc (delete_empty_dirs_recursive [''a''] abc False) \<and>
   cascaded abc (delete_empty_recursive [''a''] abc False) \<and>
   hollow abc"
proof -
  have "wf_node abc" "\<not> is_file abc" "list_error abc = None"
    by (simp_all add: abc_def empty_dir_def)
  then have "visits_bottom_up [''a''] (delete_empty_dirs_recursive [''a''] abc False) \<and>
         visits_bottom_up [''a''] (delete_empty_recursive [''a''] abc False) \<and>
         (permissive abc \<longrightarrow>
            cascaded abc (delete_empty_dirs_recursive [''a''] abc False) \<and>
            cascaded abc (delete_empty_recursive [''a''] abc False)) \<and>
         removed (snd (delete_empty_dirs_recursive [''a''] abc False)) =
           [[''a'', ''b'', ''c''], [''a'', ''b''], [''a'']] \<and>
         fst (delete_empty_dirs_recursive [''a''] abc False) = None"
    by (rule pruner_cascades_bottom_up)
  moreover have "permissive abc" "hollow abc" by (simp_all add: abc_def empty_dir_def)
  ultimately show ?thesis by simp
qed

end
